theory Spec2Isabelle
  imports Main "HOL-Library.Multiset"
begin

section \<open>JavaScript primitives used by the engine\<close>

text \<open>
  The engine's numbers are chip counts, ranks and seat indices; they are modelled as
  unbounded \<open>int\<close>. The remainder operator \<open>%\<close> of the source truncates towards zero,
  which is written out here. (A zero divisor gives \<open>NaN\<close> in the source; that needs
  a table without any seat, a case that is not represented.)
\<close>

definition js_rem :: "int \<Rightarrow> int \<Rightarrow> int" where
  "js_rem a b = (if a < 0 then - ((- a) mod \<bar>b\<bar>) else a mod \<bar>b\<bar>)"

text \<open>
  \<open>Array.prototype.sort(cmp)\<close> is a stable sort: an element goes before another when
  the comparator is negative, and elements that compare equal keep their order. It is
  modelled as a stable insertion sort driven by the comparator.
\<close>

fun insort_cmp :: "('a \<Rightarrow> 'a \<Rightarrow> int) \<Rightarrow> 'a \<Rightarrow> 'a list \<Rightarrow> 'a list" where
  "insort_cmp cmp x [] = [x]"
| "insort_cmp cmp x (y # ys) =
     (if cmp x y \<le> 0 then x # y # ys else y # insort_cmp cmp x ys)"

definition sort_cmp :: "('a \<Rightarrow> 'a \<Rightarrow> int) \<Rightarrow> 'a list \<Rightarrow> 'a list" where
  "sort_cmp cmp xs = foldr (insort_cmp cmp) xs []"

text \<open>\<open>Array.from(new Set(xs))\<close>: the distinct elements, in order of first occurrence.\<close>

fun uniqueFrom :: "'a list \<Rightarrow> 'a list \<Rightarrow> 'a list" where
  "uniqueFrom seen [] = []"
| "uniqueFrom seen (x # xs) =
     (if x \<in> set seen then uniqueFrom seen xs else x # uniqueFrom (seen @ [x]) xs)"

definition unique :: "'a list \<Rightarrow> 'a list" where
  "unique xs = uniqueFrom [] xs"

section \<open>Cards and the hand evaluator\<close>

text \<open>
  A card is the string \<open>cardStr r s\<close> in the source and is read back by \<open>parseCard\<close>;
  the model keeps the parsed pair of rank and suit.
\<close>

datatype suit = Spades | Hearts | Diamonds | Clubs

type_synonym card = "int \<times> suit"

definition RANKS :: "int list" where
  "RANKS = [2, 3, 4, 5, 6, 7, 8, 9, 10, 11, 12, 13, 14]"

definition SUITS :: "suit list" where
  "SUITS = [Spades, Hearts, Diamonds, Clubs]"

definition fullDeck :: "card list" where
  "fullDeck = concat (map (\<lambda>r. map (\<lambda>s. (r, s)) SUITS) RANKS)"

fun combinations :: "'a list \<Rightarrow> nat \<Rightarrow> 'a list list" where
  "combinations xs 0 = [[]]"
| "combinations [] (Suc k) = []"
| "combinations (x # xs) (Suc k) =
     map ((#) x) (combinations xs k) @ combinations xs (Suc k)"

text \<open>\<open>compareEval\<close>: element-wise comparison, a missing position reads as 0.\<close>

fun compareEval :: "int list \<Rightarrow> int list \<Rightarrow> int" where
  "compareEval [] [] = 0"
| "compareEval (a # as) [] =
     (if a > 0 then 1 else if a < 0 then -1 else compareEval as [])"
| "compareEval [] (b # bs) =
     (if 0 > b then 1 else if 0 < b then -1 else compareEval [] bs)"
| "compareEval (a # as) (b # bs) =
     (if a > b then 1 else if a < b then -1 else compareEval as bs)"

text \<open>The loop over \<open>i = 0..3\<close> that checks that neighbours differ by exactly one.\<close>

fun consecutive :: "int list \<Rightarrow> bool" where
  "consecutive (a # b # rest) = (a - b = 1 \<and> consecutive (b # rest))"
| "consecutive _ = True"

text \<open>
  \<open>straightInfo\<close> is the block that sets \<open>isStraight\<close> and \<open>topStraight\<close> from the ranks
  (already sorted in descending order).
\<close>

definition straightInfo :: "int list \<Rightarrow> bool \<times> int" where
  "straightInfo ranks =
     (let uniqueRanks = unique ranks;
          sortedUnique = sort_cmp (\<lambda>a b. b - a) uniqueRanks
      in if length sortedUnique = 5 then
           (if consecutive sortedUnique then (True, hd sortedUnique)
            else if sort_cmp (\<lambda>a b. b - a) sortedUnique = [14, 5, 4, 3, 2] then (True, 5)
            else (False, 0))
         else (False, 0))"

text \<open>
  \<open>byCount\<close>: the entries of the \<open>counts\<close> object (integer keys come out in ascending
  order), sorted by count and then by rank, both descending.
\<close>

definition byCount :: "int list \<Rightarrow> (int \<times> int) list" where
  "byCount ranks =
     sort_cmp (\<lambda>a b. if snd b \<noteq> snd a then snd b - snd a else fst b - fst a)
       (map (\<lambda>r. (r, int (count_list ranks r))) (sort (remdups ranks)))"

text \<open>
  The chain of \<open>return\<close> statements. \<open>xs[0]\<close> of an empty array is \<open>undefined\<close>, which
  \<open>compareEval\<close> reads as a missing position; \<open>take 1\<close> keeps that reading.
\<close>

definition classify :: "bool \<Rightarrow> bool \<times> int \<Rightarrow> (int \<times> int) list \<Rightarrow> int list \<Rightarrow> int list" where
  "classify isFlush st bc ranks =
     (let isStraight = fst st; topStraight = snd st;
          c0 = snd (hd bc); r0 = fst (hd bc);
          has1 = (length bc > 1); c1 = snd (bc ! 1); r1 = fst (bc ! 1)
      in if isStraight \<and> isFlush then [8, topStraight]
         else if c0 = 4 then [7, r0] @ take 1 (map fst (drop 1 bc))
         else if c0 = 3 \<and> has1 \<and> c1 = 2 then [6, r0, r1]
         else if isFlush then 5 # ranks
         else if isStraight then [4, topStraight]
         else if c0 = 3 then [3, r0] @ take 2 (map fst (drop 1 bc))
         else if c0 = 2 \<and> has1 \<and> c1 = 2 then [2, r0, r1] @ take 1 (map fst (drop 2 bc))
         else if c0 = 2 then [1, r0] @ take 3 (map fst (drop 1 bc))
         else 0 # ranks)"

text \<open>
  \<open>evaluate5\<close>. With no card at all the source reads \<open>byCount[0].c\<close> of \<open>undefined\<close> and
  throws; that is the result \<open>None\<close>.
\<close>

definition evaluate5 :: "card list \<Rightarrow> int list option" where
  "evaluate5 cards =
     (let ps = sort_cmp (\<lambda>a b. fst b - fst a) cards;
          ranks = map fst ps;
          suits = map snd ps;
          isFlush = list_all (\<lambda>s. s = hd suits) suits
      in if cards = [] then None
         else Some (classify isFlush (straightInfo ranks) (byCount ranks) ranks))"

text \<open>
  \<open>bestHandFromSeven\<close>: the first 5-card combination with the greatest evaluation. An
  \<open>undefined\<close> card (a pop from an empty deck) makes \<open>parseCard\<close> throw, and fewer than five
  cards leave \<open>bestEval\<close> at \<open>null\<close>, on which the showdown later throws; both are \<open>None\<close>.
\<close>

fun bestLoop :: "card list list \<Rightarrow> (int list \<times> card list) option \<Rightarrow> (int list \<times> card list) option" where
  "bestLoop [] best = best"
| "bestLoop (h # hs) best =
     (case evaluate5 h of
        None \<Rightarrow> None
      | Some e \<Rightarrow>
          (case best of
             None \<Rightarrow> bestLoop hs (Some (e, h))
           | Some (be, bh) \<Rightarrow>
               if compareEval e be > 0 then bestLoop hs (Some (e, h)) else bestLoop hs best))"

definition bestHandFromSeven :: "card option list \<Rightarrow> (int list \<times> card list) option" where
  "bestHandFromSeven cards7 =
     (case those cards7 of None \<Rightarrow> None | Some cs \<Rightarrow> bestLoop (combinations cs 5) None)"

section \<open>Table state\<close>

record seat =
  socketId :: "string option"
  pubkey :: "string option"
  chips :: int
  currentBet :: int
  totalContributed :: int
  folded :: bool
  holeCards :: "card option list"
  active :: bool
  allIn :: "bool option"
  reconnectTimeout :: "int option"

datatype stage = Waiting | Preflop | Flop | Turn | River | Showdown

record table =
  table_id :: string
  seats :: "seat option list"
  deck :: "card list"
  community :: "card option list"
  pot :: int
  currentBetToCall :: int
  dealerIndex :: int
  currentTurnIndex :: int
  stage :: stage
  lastRaiseAmount :: int

text \<open>The configuration constants read from the environment.\<close>

record config =
  ACTION_TIMEOUT_MS :: int
  SMALL_BLIND :: int
  BIG_BLIND :: int
  SEAT_COUNT :: nat
  MIN_PLAYERS_TO_START :: int

definition defaultConfig :: config where
  "defaultConfig = \<lparr>ACTION_TIMEOUT_MS = 20000, SMALL_BLIND = 1, BIG_BLIND = 2,
     SEAT_COUNT = 6, MIN_PLAYERS_TO_START = 2\<rparr>"

definition newTable :: "config \<Rightarrow> string \<Rightarrow> table" where
  "newTable cfg name =
     \<lparr>table_id = name, seats = replicate (SEAT_COUNT cfg) None, deck = [], community = [],
      pot = 0, currentBetToCall = 0, dealerIndex = -1, currentTurnIndex = 0,
      stage = Waiting, lastRaiseAmount = BIG_BLIND cfg\<rparr>"

text \<open>\<open>this.seats[i]\<close>: an index outside the array reads \<open>undefined\<close>, as an empty seat does.\<close>

definition seat_at :: "table \<Rightarrow> int \<Rightarrow> seat option" where
  "seat_at t i = (if 0 \<le> i \<and> i < int (length (seats t)) then seats t ! nat i else None)"

text \<open>Truthiness of the optional flag \<open>allIn\<close>.\<close>

definition truthy :: "bool option \<Rightarrow> bool" where
  "truthy b = (b = Some True)"

text \<open>In-place mutation of the seat object stored at an index.\<close>

definition modSeat :: "int \<Rightarrow> (seat \<Rightarrow> seat) \<Rightarrow> table \<Rightarrow> table" where
  "modSeat i f t =
     (case seat_at t i of
        None \<Rightarrow> t
      | Some s \<Rightarrow> t\<lparr>seats := (seats t)[nat i := Some (f s)]\<rparr>)"

text \<open>Mutation of every seat object, as in \<open>for (const s of this.seats) if (s) ...\<close>.\<close>

definition forSeats :: "(seat \<Rightarrow> seat) \<Rightarrow> table \<Rightarrow> table" where
  "forSeats f t = t\<lparr>seats := map (map_option f) (seats t)\<rparr>"

text \<open>\<open>seatPlayer\<close>; its only caller has checked that the index is inside the array.\<close>

definition seatPlayer :: "int \<Rightarrow> string \<Rightarrow> string \<Rightarrow> table \<Rightarrow> table" where
  "seatPlayer index pk sid t =
     t\<lparr>seats := (seats t)[nat index :=
        Some \<lparr>socketId = Some sid, pubkey = Some pk, chips = 1000, currentBet = 0,
              totalContributed = 0, folded = False, holeCards = [], active = True,
              allIn = Some False, reconnectTimeout = None\<rparr>]\<rparr>"

definition readyPlayerCount :: "table \<Rightarrow> nat" where
  "readyPlayerCount t =
     length (filter (\<lambda>s. case s of None \<Rightarrow> False | Some s \<Rightarrow> active s) (seats t))"

text \<open>The candidates \<open>(startIdx + i) % n\<close> for \<open>i = 1..n\<close>, in the order the loops visit them.\<close>

definition ring :: "table \<Rightarrow> int \<Rightarrow> int list" where
  "ring t startIdx =
     map (\<lambda>i. js_rem (startIdx + int i) (int (length (seats t)))) [1..<Suc (length (seats t))]"

definition firstSeat :: "table \<Rightarrow> int \<Rightarrow> (seat \<Rightarrow> bool) \<Rightarrow> int option" where
  "firstSeat t startIdx ok =
     find (\<lambda>cand. case seat_at t cand of None \<Rightarrow> False | Some s \<Rightarrow> ok s) (ring t startIdx)"

definition nextOccupiedFrom :: "table \<Rightarrow> int \<Rightarrow> int" where
  "nextOccupiedFrom t startIdx =
     (case firstSeat t startIdx (\<lambda>s. active s \<and> \<not> folded s \<and> \<not> truthy (allIn s)) of
        None \<Rightarrow> -1 | Some cand \<Rightarrow> cand)"

definition nextOccupiedForBlinds :: "table \<Rightarrow> int \<Rightarrow> int" where
  "nextOccupiedForBlinds t startIdx =
     (case firstSeat t startIdx (\<lambda>s. active s) of None \<Rightarrow> startIdx | Some cand \<Rightarrow> cand)"

definition findNextAny :: "table \<Rightarrow> int \<Rightarrow> int" where
  "findNextAny t startIdx =
     (case firstSeat t startIdx (\<lambda>s. active s \<and> \<not> folded s) of
        None \<Rightarrow> -1 | Some cand \<Rightarrow> cand)"

definition isBettingRoundComplete :: "table \<Rightarrow> bool" where
  "isBettingRoundComplete t =
     list_all (\<lambda>s. case s of
                      None \<Rightarrow> True
                    | Some s \<Rightarrow> folded s \<or> truthy (allIn s) \<or> currentBet s = currentBetToCall t)
       (seats t)"

text \<open>\<open>this.deck.pop()\<close>: the last card, or \<open>undefined\<close> from an empty deck.\<close>

definition popCard :: "card list \<Rightarrow> card option \<times> card list" where
  "popCard d = (if d = [] then (None, []) else (Some (last d), butlast d))"

text \<open>
  The statements \<open>seat.chips -= x; seat.currentBet += x; seat.totalContributed += x;
  this.pot += x\<close>, which the blinds, a call and a raise all perform.
\<close>

definition commitChips :: "int \<Rightarrow> int \<Rightarrow> table \<Rightarrow> table" where
  "commitChips i x t =
     (modSeat i (\<lambda>s. s\<lparr>chips := chips s - x, currentBet := currentBet s + x,
                       totalContributed := totalContributed s + x\<rparr>) t)
       \<lparr>pot := pot t + x\<rparr>"

text \<open>\<open>if (seat.chips === 0) seat.allIn = true\<close>.\<close>

definition markAllIn :: "int \<Rightarrow> table \<Rightarrow> table" where
  "markAllIn i t = modSeat i (\<lambda>s. if chips s = 0 then s\<lparr>allIn := Some True\<rparr> else s) t"

section \<open>Showdown\<close>

record result =
  idx :: int
  bestEval :: "int list"
  bestHand :: "card list"
  contrib :: int

record sidepot =
  amount :: int
  eligibleIndices :: "int list"

text \<open>\<open>this.seats.map((s, idx) => ({ s, idx })).filter(x => x.s && !x.s.folded)\<close>.\<close>

definition activePlayers :: "table \<Rightarrow> (int \<times> seat) list" where
  "activePlayers t =
     concat (map (\<lambda>(i, so). case so of
                               None \<Rightarrow> []
                             | Some s \<Rightarrow> if folded s then [] else [(int i, s)])
                 (enumerate 0 (seats t)))"

text \<open>
  The loop that fills \<open>results\<close>; \<open>None\<close> when some hand evaluation throws or leaves a
  \<open>null\<close> evaluation behind (see \<open>bestHandFromSeven\<close>).
\<close>

fun showdownResults :: "card option list \<Rightarrow> (int \<times> seat) list \<Rightarrow> result list option" where
  "showdownResults board [] = Some []"
| "showdownResults board ((i, s) # ps) =
     (case bestHandFromSeven (holeCards s @ board) of
        None \<Rightarrow> None
      | Some (e, h) \<Rightarrow>
          (case showdownResults board ps of
             None \<Rightarrow> None
           | Some rs \<Rightarrow>
               Some (\<lparr>idx = i, bestEval = e, bestHand = h, contrib = totalContributed s\<rparr> # rs)))"

definition contribLevels :: "result list \<Rightarrow> int list" where
  "contribLevels results = sort_cmp (\<lambda>a b. a - b) (unique (map contrib results))"

fun potsLoop :: "result list \<Rightarrow> int \<Rightarrow> int list \<Rightarrow> sidepot list" where
  "potsLoop results prev [] = []"
| "potsLoop results prev (level # levels) =
     (let eligible = map idx (filter (\<lambda>r. contrib r \<ge> level) results);
          portion = (level - prev) * int (length eligible)
      in \<lparr>amount = portion, eligibleIndices = eligible\<rparr> # potsLoop results level levels)"

definition buildPots :: "result list \<Rightarrow> sidepot list" where
  "buildPots results = potsLoop results 0 (contribLevels results)"

text \<open>
  The winners of one pot. \<open>eligResults\<close> is never empty for a pot made by \<open>buildPots\<close>
  (its level is the contribution of some result), so \<open>eligResults[0]\<close> exists.
\<close>

definition potWinners :: "result list \<Rightarrow> sidepot \<Rightarrow> int list" where
  "potWinners results p =
     (let eligResults =
            sort_cmp (\<lambda>a b. compareEval (bestEval b) (bestEval a))
              (filter (\<lambda>r. idx r \<in> set (eligibleIndices p)) results)
      in case eligResults of
           [] \<Rightarrow> []
         | r0 # _ \<Rightarrow>
             map idx (filter (\<lambda>r. compareEval (bestEval r) (bestEval r0) = 0) eligResults))"

definition addChips :: "int \<Rightarrow> int \<Rightarrow> table \<Rightarrow> table" where
  "addChips w x t = modSeat w (\<lambda>s. s\<lparr>chips := chips s + x\<rparr>) t"

text \<open>The body of the distribution loop for one pot and its winners.\<close>

definition awardPot :: "sidepot \<Rightarrow> int list \<Rightarrow> table \<Rightarrow> table" where
  "awardPot p winners t =
     (let share = amount p div int (length winners);
          t1 = fold (\<lambda>w. addChips w share) winners t;
          leftover = amount p - share * int (length winners)
      in if leftover > 0 then addChips (hd winners) leftover t1 else t1)"

fun awardPots :: "(sidepot \<times> int list) list \<Rightarrow> table \<Rightarrow> table" where
  "awardPots [] t = t"
| "awardPots ((p, winners) # rest) t = awardPots rest (awardPot p winners t)"

definition resetHand :: "table \<Rightarrow> table" where
  "resetHand t =
     (forSeats (\<lambda>s. s\<lparr>currentBet := 0, totalContributed := 0, holeCards := [],
                      folded := False, allIn := Some False\<rparr>) t)
       \<lparr>community := [], deck := [], pot := 0, currentBetToCall := 0, stage := Waiting\<rparr>"

text \<open>
  \<open>resolveShowdown\<close>, taken as one step (the write of the hand record in its middle
  changes nothing of the table). When a hand evaluation throws, the table is left as it
  was when the function was entered.
\<close>

definition resolveShowdown :: "table \<Rightarrow> table" where
  "resolveShowdown t =
     (if activePlayers t = [] then resetHand t
      else case showdownResults (community t) (activePlayers t) of
             None \<Rightarrow> t
           | Some results \<Rightarrow>
               (let pots = buildPots results;
                    winnersByPot = map (potWinners results) pots;
                    t1 = awardPots (zip pots winnersByPot) t
                in t1\<lparr>stage := Waiting, deck := [], community := [], pot := 0,
                       currentBetToCall := 0\<rparr>))"

section \<open>Hand sequencing\<close>

text \<open>One pass of the dealing loop: every occupied seat, in index order, gets the next card.\<close>

fun dealRound :: "seat option list \<Rightarrow> card list \<Rightarrow> seat option list \<times> card list" where
  "dealRound [] d = ([], d)"
| "dealRound (None # ss) d = (let (ss', d') = dealRound ss d in (None # ss', d'))"
| "dealRound (Some s # ss) d =
     (let (c, d1) = popCard d;
          (ss', d') = dealRound ss d1
      in (Some (s\<lparr>holeCards := holeCards s @ [c]\<rparr>) # ss', d'))"

definition dealHole :: "table \<Rightarrow> table" where
  "dealHole t = (let (ss, d) = dealRound (seats t) (deck t) in t\<lparr>seats := ss, deck := d\<rparr>)"

text \<open>
  \<open>startHandIfReady\<close>, in three parts. The result of \<open>shuffle(fullDeck())\<close> is the
  argument \<open>shuffled\<close>. \<open>beginHand\<close> is the part from the new deck to the rotation of the
  button: table fields, per-hand seat fields, two rounds of hole cards, \<open>dealerIndex\<close>.
\<close>

definition beginHand :: "config \<Rightarrow> card list \<Rightarrow> table \<Rightarrow> table" where
  "beginHand cfg shuffled t =
     (let t1 = t\<lparr>deck := shuffled, community := [], pot := 0, currentBetToCall := 0,
                 stage := Preflop, lastRaiseAmount := BIG_BLIND cfg\<rparr>;
          t2 = forSeats (\<lambda>s. s\<lparr>currentBet := 0, folded := False, holeCards := [],
                                totalContributed := 0, allIn := Some False\<rparr>) t1;
          t3 = dealHole (dealHole t2)
      in t3\<lparr>dealerIndex := js_rem (dealerIndex t3 + 1) (int (length (seats t3)))\<rparr>)"

text \<open>
  \<open>postBlinds\<close> is the part from the choice of the blind seats to the first turn. When
  \<open>seats[sb]\<close> or \<open>seats[bb]\<close> is empty the source throws on reading \<open>chips\<close> and the
  table stays as it is at that point.
\<close>

definition postBlinds :: "config \<Rightarrow> table \<Rightarrow> table" where
  "postBlinds cfg t4 =
     (let sb = nextOccupiedForBlinds t4 (dealerIndex t4);
          bb = nextOccupiedForBlinds t4 sb
      in case (seat_at t4 sb, seat_at t4 bb) of
           (Some sbSeat, Some bbSeat) \<Rightarrow>
             (let small = min (SMALL_BLIND cfg) (chips sbSeat);
                  big = min (BIG_BLIND cfg) (chips bbSeat);
                  t5 = markAllIn sb (commitChips sb small t4);
                  t6 = markAllIn bb (commitChips bb big t5);
                  t7 = t6\<lparr>currentBetToCall := big\<rparr>;
                  first = nextOccupiedFrom t7 bb
              in t7\<lparr>currentTurnIndex := (if first = -1 then bb else first)\<rparr>)
         | _ \<Rightarrow> t4)"

definition startHandIfReady :: "config \<Rightarrow> card list \<Rightarrow> table \<Rightarrow> table" where
  "startHandIfReady cfg shuffled t =
     (if stage t \<noteq> Waiting then t
      else if int (readyPlayerCount t) < MIN_PLAYERS_TO_START cfg then t
      else postBlinds cfg (beginHand cfg shuffled t))"

text \<open>The tail of \<open>advanceStage\<close>, shared by every branch that does not go to showdown.\<close>

definition openRound :: "config \<Rightarrow> table \<Rightarrow> table" where
  "openRound cfg t =
     (let t1 = t\<lparr>currentBetToCall := 0, lastRaiseAmount := BIG_BLIND cfg\<rparr>;
          first = nextOccupiedFrom t1 (dealerIndex t1)
      in t1\<lparr>currentTurnIndex := (if first = -1 then dealerIndex t1 else first)\<rparr>)"

text \<open>\<open>this.community.push(this.deck.pop()!)\<close>.\<close>

definition dealBoard :: "table \<Rightarrow> table" where
  "dealBoard t = (let (c, d) = popCard (deck t) in t\<lparr>community := community t @ [c], deck := d\<rparr>)"

definition advanceStage :: "config \<Rightarrow> table \<Rightarrow> table" where
  "advanceStage cfg t =
     (let t1 = forSeats (\<lambda>s. s\<lparr>currentBet := 0\<rparr>) t
      in if stage t1 = Preflop then
           openRound cfg ((dealBoard (dealBoard (dealBoard t1)))\<lparr>stage := Flop\<rparr>)
         else if stage t1 = Flop then openRound cfg ((dealBoard t1)\<lparr>stage := Turn\<rparr>)
         else if stage t1 = Turn then openRound cfg ((dealBoard t1)\<lparr>stage := River\<rparr>)
         else if stage t1 = River then resolveShowdown (t1\<lparr>stage := Showdown\<rparr>)
         else openRound cfg t1)"

section \<open>Actions\<close>

datatype action = Fold | Check | Call | Raise "int option"

text \<open>
  The first half of \<open>handleAction\<close>, up to the comment \<open>advance turn\<close>: the command is
  ignored (wrong seat or turn), rejected (illegal check or raise, the timer is restarted),
  or applied to the table.
\<close>

datatype outcome = Ignored | Rejected | Applied table

definition applyAction :: "config \<Rightarrow> int \<Rightarrow> action \<Rightarrow> table \<Rightarrow> outcome" where
  "applyAction cfg seatIndex a t =
     (case seat_at t seatIndex of
        None \<Rightarrow> Ignored
      | Some seat \<Rightarrow>
          if folded seat \<or> truthy (allIn seat) then Ignored
          else if currentTurnIndex t \<noteq> seatIndex then Ignored
          else (case a of
                  Fold \<Rightarrow> Applied (modSeat seatIndex (\<lambda>s. s\<lparr>folded := True\<rparr>) t)
                | Check \<Rightarrow>
                    if currentBet seat \<noteq> currentBetToCall t then Rejected else Applied t
                | Call \<Rightarrow>
                    (let toCall = currentBetToCall t - currentBet seat;
                         callAmount = min toCall (chips seat)
                     in Applied (markAllIn seatIndex (commitChips seatIndex callAmount t)))
                | Raise amt \<Rightarrow>
                    (let raiseAmt = (case amt of None \<Rightarrow> 0 | Some x \<Rightarrow> x);
                         toCall = currentBetToCall t - currentBet seat;
                         minRaise = max (lastRaiseAmount t) (BIG_BLIND cfg)
                     in if raiseAmt < minRaise then Rejected
                        else
                          let totalInvest = toCall + raiseAmt;
                              invest = min totalInvest (chips seat);
                              t1 = commitChips seatIndex invest t;
                              t2 = (if currentBet seat + invest > currentBetToCall t1
                                    then t1\<lparr>lastRaiseAmount := raiseAmt,
                                            currentBetToCall := currentBet seat + invest\<rparr>
                                    else t1)
                          in Applied (markAllIn seatIndex t2))))"

text \<open>
  The second half of \<open>handleAction\<close>: either \<open>advanceStage\<close> is called on the table, or the
  hand goes on with the next seat to act.
\<close>

datatype decision = Advance table | Continue table

definition turnDecision :: "table \<Rightarrow> decision" where
  "turnDecision t =
     (let next = nextOccupiedFrom t (currentTurnIndex t)
      in if next = -1 then
           (if isBettingRoundComplete t then Advance t
            else let next2 = findNextAny t (currentTurnIndex t)
                 in if next2 = -1 then Advance t
                    else let t1 = t\<lparr>currentTurnIndex := next2\<rparr>
                         in if isBettingRoundComplete t1 then Advance t1 else Continue t1)
         else let t1 = t\<lparr>currentTurnIndex := next\<rparr>
              in if isBettingRoundComplete t1 then Advance t1 else Continue t1)"

definition handleAction :: "config \<Rightarrow> int \<Rightarrow> action \<Rightarrow> table \<Rightarrow> table" where
  "handleAction cfg seatIndex a t =
     (case applyAction cfg seatIndex a t of
        Ignored \<Rightarrow> t
      | Rejected \<Rightarrow> t
      | Applied t1 \<Rightarrow>
          (case turnDecision t1 of
             Advance t2 \<Rightarrow> advanceStage cfg t2
           | Continue t2 \<Rightarrow> t2))"

text \<open>The callback of the action timer: the seat whose turn it is folds.\<close>

datatype timeout_step = NoFold | FoldAdvance table | FoldContinue table

definition timeoutDecision :: "table \<Rightarrow> timeout_step" where
  "timeoutDecision t =
     (let i = currentTurnIndex t
      in case seat_at t i of
           None \<Rightarrow> NoFold
         | Some seat \<Rightarrow>
             if folded seat \<or> truthy (allIn seat) then NoFold
             else
               let t1 = modSeat i (\<lambda>s. s\<lparr>folded := True\<rparr>) t
               in if isBettingRoundComplete t1 then FoldAdvance t1
                  else let next = nextOccupiedFrom t1 i
                       in if next = -1 then FoldAdvance t1
                          else FoldContinue (t1\<lparr>currentTurnIndex := next\<rparr>))"

definition onTimeout :: "config \<Rightarrow> table \<Rightarrow> table" where
  "onTimeout cfg t =
     (case timeoutDecision t of
        NoFold \<Rightarrow> t
      | FoldAdvance t1 \<Rightarrow> advanceStage cfg t1
      | FoldContinue t1 \<Rightarrow> t1)"

section \<open>Broadcast and seating\<close>

record publicSeat =
  pub_pubkey :: "string option"
  pub_chips :: int
  pub_active :: bool
  pub_folded :: bool
  pub_currentBet :: int
  pub_totalContributed :: int
  pub_allIn :: bool

text \<open>
  The \<open>table_state\<close> payload. The only \<open>extras\<close> the engine ever passes are none, or the
  showdown winners (pot index and winning seat indices).
\<close>

record publicState =
  st_id :: string
  st_seats :: "publicSeat option list"
  st_community :: "card option list"
  st_pot :: int
  st_stage :: stage
  st_currentBetToCall :: int
  st_currentTurnIndex :: int
  st_dealerIndex :: int
  st_lastRaiseAmount :: int
  st_actionTimeoutMs :: int
  st_showdown :: "(nat \<times> int list) list option"

definition publicSeatOf :: "seat \<Rightarrow> publicSeat" where
  "publicSeatOf s =
     \<lparr>pub_pubkey = pubkey s, pub_chips = chips s, pub_active = active s,
      pub_folded = folded s, pub_currentBet = currentBet s,
      pub_totalContributed = totalContributed s,
      pub_allIn = (case allIn s of None \<Rightarrow> False | Some b \<Rightarrow> b)\<rparr>"

definition broadcastTableState :: "config \<Rightarrow> (nat \<times> int list) list option \<Rightarrow> table \<Rightarrow> publicState" where
  "broadcastTableState cfg extras t =
     \<lparr>st_id = table_id t, st_seats = map (map_option publicSeatOf) (seats t),
      st_community = community t, st_pot = pot t, st_stage = stage t,
      st_currentBetToCall = currentBetToCall t, st_currentTurnIndex = currentTurnIndex t,
      st_dealerIndex = dealerIndex t, st_lastRaiseAmount = lastRaiseAmount t,
      st_actionTimeoutMs = ACTION_TIMEOUT_MS cfg, st_showdown = extras\<rparr>"

text \<open>
  The \<open>sit\<close> handler runs in two steps, with the lookup in the player store between
  them; other commands can be handled in between. \<open>sitArrive\<close> is the synchronous part:
  \<open>who\<close> is the identity attached to the socket (none before authentication, and the
  empty string is falsy). It rejects the command, or leaves a request waiting for the
  answer of the store: the identity, the socket id and the seat index.
\<close>

datatype sit_error = NotAuthenticated | BadSeat | SeatTaken | Banned | ServerError

datatype player_row = LookupFailed | NoRow | Row bool

definition sitArrive :: "string option \<Rightarrow> string \<Rightarrow> int \<Rightarrow> table
    \<Rightarrow> sit_error + (string \<times> string \<times> int)" where
  "sitArrive who sid i t =
     (case who of
        None \<Rightarrow> Inl NotAuthenticated
      | Some pk \<Rightarrow>
          if pk = [] then Inl NotAuthenticated
          else if i < 0 \<or> i \<ge> int (length (seats t)) then Inl BadSeat
          else if seat_at t i \<noteq> None then Inl SeatTaken
          else Inr (pk, sid, i))"

text \<open>
  \<open>sitAnswer\<close> is the callback that runs when the store has answered with \<open>row\<close>, on the
  table as it is at that moment. The seat is not tested again: \<open>seatPlayer\<close> writes it
  whatever it holds by then.
\<close>

definition sitAnswer :: "config \<Rightarrow> card list \<Rightarrow> player_row \<Rightarrow> string \<times> string \<times> int \<Rightarrow> table
    \<Rightarrow> sit_error + table" where
  "sitAnswer cfg shuffled row req t =
     (case req of
        (pk, sid, i) \<Rightarrow>
          (case row of
             LookupFailed \<Rightarrow> Inl ServerError
           | Row True \<Rightarrow> Inl Banned
           | _ \<Rightarrow> Inr (startHandIfReady cfg shuffled (seatPlayer i pk sid t))))"

text \<open>
  \<open>sit\<close> is a \<open>sit\<close> command whose lookup is answered before any other command is
  handled: both steps on the same table.
\<close>

definition sit :: "config \<Rightarrow> card list \<Rightarrow> string option \<Rightarrow> string \<Rightarrow> player_row \<Rightarrow> int \<Rightarrow> table
    \<Rightarrow> sit_error + table" where
  "sit cfg shuffled who sid row i t =
     (case sitArrive who sid i t of
        Inl e \<Rightarrow> Inl e
      | Inr req \<Rightarrow> sitAnswer cfg shuffled row req t)"

text \<open>A sequence of action commands, applied in arrival order.\<close>

fun runActions :: "config \<Rightarrow> (int \<times> action) list \<Rightarrow> table \<Rightarrow> table" where
  "runActions cfg [] t = t"
| "runActions cfg ((i, a) # rest) t = runActions cfg rest (handleAction cfg i a t)"

text \<open>The chips on the table: every stack plus the pot.\<close>

definition totalChips :: "table \<Rightarrow> int" where
  "totalChips t = sum_list (map (\<lambda>so. case so of None \<Rightarrow> 0 | Some s \<Rightarrow> chips s) (seats t)) + pot t"

text \<open>
  The heads-up table used in the examples: identities \<open>A\<close> and \<open>B\<close> take seats 0 and 1
  of a fresh six-seat table, and the first hand starts on the unshuffled deck (one of the
  orders \<open>shuffle\<close> can return).
\<close>

definition headsUp :: table where
  "headsUp =
     (case sit defaultConfig fullDeck (Some ''A'') ''s1'' NoRow 0 (newTable defaultConfig ''table-1'') of
        Inl e \<Rightarrow> newTable defaultConfig ''table-1''
      | Inr t \<Rightarrow>
          (case sit defaultConfig fullDeck (Some ''B'') ''s2'' NoRow 1 t of
             Inl e \<Rightarrow> t
           | Inr t' \<Rightarrow> t'))"

section \<open>Auxiliary notions for the statements\<close>

text \<open>
  The seat fields that the public view is meant to leave out, blanked: two tables that
  differ only in those fields become equal.
\<close>

definition hidePrivate :: "seat \<Rightarrow> seat" where
  "hidePrivate s = s\<lparr>holeCards := [], socketId := None, reconnectTimeout := None\<rparr>"

text \<open>The heads-up table with other private data in seat 0.\<close>

definition peeked :: table where
  "peeked =
     modSeat 0 (\<lambda>s. s\<lparr>holeCards := [Some (2, Clubs)], socketId := None,
                       reconnectTimeout := Some 60000\<rparr>) headsUp"

text \<open>Example hands.\<close>

definition wheelHand :: "card list" where
  "wheelHand = [(3, Hearts), (14, Spades), (2, Diamonds), (5, Clubs), (4, Hearts)]"

definition sixHighHand :: "card list" where
  "sixHighHand = [(4, Spades), (6, Hearts), (2, Clubs), (3, Clubs), (5, Diamonds)]"

definition broadwayHand :: "card list" where
  "broadwayHand = [(10, Hearts), (14, Spades), (12, Diamonds), (13, Clubs), (11, Hearts)]"

text \<open>Every occupied seat is marked active (\<open>seatPlayer\<close> creates seats so, and nothing clears the mark).\<close>

definition allActive :: "table \<Rightarrow> bool" where
  "allActive t = list_all (\<lambda>so. case so of None \<Rightarrow> True | Some s \<Rightarrow> active s) (seats t)"

text \<open>
  The engine keeps no record of who has acted. This function reconstructs it from the
  commands: the seats whose command was applied since the last applied raise.
\<close>

fun actedSinceRaise :: "config \<Rightarrow> int list \<Rightarrow> (int \<times> action) list \<Rightarrow> table \<Rightarrow> int list" where
  "actedSinceRaise cfg acted [] t = acted"
| "actedSinceRaise cfg acted ((i, a) # rest) t =
     actedSinceRaise cfg
       (case applyAction cfg i a t of
          Applied t1 \<Rightarrow> (case a of Raise amt \<Rightarrow> [i] | _ \<Rightarrow> acted @ [i])
        | _ \<Rightarrow> acted)
       rest (handleAction cfg i a t)"

text \<open>
  The heads-up hand at the river, after the small blind (seat 1) has folded before the
  flop and the big blind has checked the flop and the turn.
\<close>

definition riverTable :: table where
  "riverTable = runActions defaultConfig [(1, Fold), (0, Check), (0, Check)] headsUp"

text \<open>Identity \<open>A\<close> alone at seat 0 of a fresh table.\<close>

definition soloTable :: table where
  "soloTable = seatPlayer 0 ''A'' ''s1'' (newTable defaultConfig ''table-1'')"

text \<open>The read \<open>a[i] ?? 0\<close> of \<open>compareEval\<close>.\<close>

definition readAt :: "int list \<Rightarrow> nat \<Rightarrow> int" where
  "readAt a i = (if i < length a then a ! i else 0)"

text \<open>
  A second hand at the same table. The first, heads-up hand is called and checked down
  and is split (both seats hold quad kings with an ace), so both seats are back at 1000
  chips. Identity \<open>C\<close> then takes seat 2 and the next hand starts, again on the unshuffled
  deck, with the button on seat 1. Seat 1 raises by 65, the blinds call, and seat 2
  checks the flop and the turn: the river, with 201 chips in the pot.
\<close>

definition afterFirstHand :: table where
  "afterFirstHand =
     runActions defaultConfig [(1, Call), (1, Check), (1, Check), (1, Check)] headsUp"

definition secondHand :: table where
  "secondHand =
     (case sit defaultConfig fullDeck (Some ''C'') ''s3'' NoRow 2 afterFirstHand of
        Inl e \<Rightarrow> afterFirstHand
      | Inr t \<Rightarrow> t)"

definition oddChipRiver :: table where
  "oddChipRiver =
     runActions defaultConfig
       [(1, Raise (Some 65)), (2, Call), (0, Call), (2, Check), (2, Check)] secondHand"

text \<open>The showdown results and the single pot of that hand.\<close>

definition oddChipResults :: "result list" where
  "oddChipResults =
     (case showdownResults (community oddChipRiver) (activePlayers oddChipRiver) of
        None \<Rightarrow> []
      | Some rs \<Rightarrow> rs)"

definition oddChipPot :: sidepot where
  "oddChipPot = hd (buildPots oddChipResults)"

text \<open>The heads-up table once the small blind (seat 1) has put in the chip that calls.\<close>

definition calledTable :: table where
  "calledTable = markAllIn 1 (commitChips 1 1 headsUp)"

text \<open>Everything of a seat but its hole cards.\<close>

definition publicPart :: "seat \<Rightarrow> string option \<times> string option \<times> int \<times> int \<times> int \<times> bool \<times> bool \<times> bool option \<times> int option" where
  "publicPart s = (socketId s, pubkey s, chips s, currentBet s, totalContributed s, folded s,
     active s, allIn s, reconnectTimeout s)"

text \<open>Identities \<open>A\<close> and \<open>B\<close> on seats 0 and 1, before the first hand is started.\<close>

definition seatedPair :: table where
  "seatedPair = seatPlayer 1 ''B'' ''s2'' soloTable"

section \<open>Public view\<close>

lemma publicSeatOf_hidePrivate: "publicSeatOf (hidePrivate s) = publicSeatOf s"
  by (simp add: publicSeatOf_def hidePrivate_def)

lemma broadcast_hidePrivate:
  "broadcastTableState cfg extras (forSeats hidePrivate t) = broadcastTableState cfg extras t"
  by (simp add: broadcastTableState_def forSeats_def option.map_comp comp_def
      publicSeatOf_hidePrivate)

text \<open>
  Claim C10 (public-view noninterference): two tables that differ only in the hole cards,
  socket handles and reconnect deadlines of their seats produce the same public
  \<open>table_state\<close> payload.
\<close>

theorem public_view_noninterference:
  assumes "forSeats hidePrivate t = forSeats hidePrivate t'"
  shows "broadcastTableState cfg extras t = broadcastTableState cfg extras t'"
proof -
  have "broadcastTableState cfg extras t = broadcastTableState cfg extras (forSeats hidePrivate t)"
    by (simp only: broadcast_hidePrivate)
  also have "\<dots> = broadcastTableState cfg extras (forSeats hidePrivate t')"
    by (simp only: assms)
  also have "\<dots> = broadcastTableState cfg extras t'"
    by (simp only: broadcast_hidePrivate)
  finally show ?thesis .
qed

theorem public_view_noninterference_witness:
  "forSeats hidePrivate headsUp = forSeats hidePrivate peeked
   \<and> headsUp \<noteq> peeked
   \<and> broadcastTableState defaultConfig None headsUp = broadcastTableState defaultConfig None peeked"
proof -
  have h: "forSeats hidePrivate headsUp = forSeats hidePrivate peeked" by code_simp
  have d: "headsUp \<noteq> peeked" by code_simp
  from h d public_view_noninterference [OF h, of defaultConfig None] show ?thesis by simp
qed

section \<open>Illegal actions\<close>

text \<open>
  Claim C9 (illegal-action atomicity): when the seat whose turn it is sends a check while
  its current bet differs from the bet to call, or a raise below
  \<open>max(lastRaiseAmount, BIG_BLIND)\<close>, the command is rejected and the table, with every
  seat in it, is unchanged.
\<close>

theorem illegal_action_leaves_table_unchanged:
  assumes "seat_at t i = Some s" and "\<not> folded s" and "\<not> truthy (allIn s)"
    and "currentTurnIndex t = i"
    and "(a = Check \<and> currentBet s \<noteq> currentBetToCall t)
       \<or> (\<exists>amt. a = Raise amt
              \<and> (case amt of None \<Rightarrow> 0 | Some x \<Rightarrow> x) < max (lastRaiseAmount t) (BIG_BLIND cfg))"
  shows "applyAction cfg i a t = Rejected \<and> handleAction cfg i a t = t"
proof -
  have r: "applyAction cfg i a t = Rejected"
    using assms by (auto simp: applyAction_def Let_def)
  then show ?thesis by (simp add: handleAction_def)
qed

theorem illegal_action_leaves_table_unchanged_witness:
  "handleAction defaultConfig 1 Check headsUp = headsUp
   \<and> handleAction defaultConfig 1 (Raise (Some 1)) headsUp = headsUp
   \<and> applyAction defaultConfig 1 Check headsUp = Rejected"
proof -
  have s: "seat_at headsUp 1 = Some (the (seat_at headsUp 1))" by code_simp
  have f: "\<not> folded (the (seat_at headsUp 1))" by code_simp
  have a: "\<not> truthy (allIn (the (seat_at headsUp 1)))" by code_simp
  have c: "currentTurnIndex headsUp = 1" by code_simp
  have b: "currentBet (the (seat_at headsUp 1)) \<noteq> currentBetToCall headsUp" by code_simp
  have m: "(case Some (1::int) of None \<Rightarrow> 0 | Some x \<Rightarrow> x)
           < max (lastRaiseAmount headsUp) (BIG_BLIND defaultConfig)"
    by code_simp
  from illegal_action_leaves_table_unchanged [OF s f a c, of Check defaultConfig] b
  have 1: "applyAction defaultConfig 1 Check headsUp = Rejected
           \<and> handleAction defaultConfig 1 Check headsUp = headsUp"
    by simp
  from illegal_action_leaves_table_unchanged [OF s f a c, of "Raise (Some 1)" defaultConfig] m
  have 2: "handleAction defaultConfig 1 (Raise (Some 1)) headsUp = headsUp"
    by blast
  from 1 2 show ?thesis by simp
qed

section \<open>Chip conservation\<close>

text \<open>
  Claim C1 (chip conservation) fails on the engine. Heads-up, both seats start with 1000
  chips; the small blind (seat 1) folds before the flop and the big blind checks every
  street. The showdown sizes its pots from the unfolded seats only, so the chip that the
  folded seat had posted is paid to nobody and is gone once the pot is set to 0: the
  table holds 1999 chips where 2000 were brought to it.
\<close>

theorem chips_vanish_after_fold:
  "totalChips headsUp = 2000
   \<and> totalChips (runActions defaultConfig [(1, Fold), (0, Check), (0, Check), (0, Check)] headsUp) = 1999
   \<and> stage (runActions defaultConfig [(1, Fold), (0, Check), (0, Check), (0, Check)] headsUp) = Waiting
   \<and> pot (runActions defaultConfig [(1, Fold), (0, Check), (0, Check), (0, Check)] headsUp) = 0"
  by code_simp

section \<open>The comparator sort\<close>

lemma mset_insort_cmp: "mset (insort_cmp cmp x xs) = add_mset x (mset xs)"
  by (induction xs) auto

lemma mset_sort_cmp: "mset (sort_cmp cmp xs) = mset xs"
  by (induction xs) (auto simp: sort_cmp_def mset_insort_cmp)

lemma set_sort_cmp: "set (sort_cmp cmp xs) = set xs"
  using mset_sort_cmp [of cmp xs] by (metis set_mset_mset)

lemma length_sort_cmp: "length (sort_cmp cmp xs) = length xs"
  using mset_sort_cmp [of cmp xs] by (metis size_mset)

lemma set_insort_cmp: "set (insort_cmp cmp x xs) = insert x (set xs)"
  using mset_insort_cmp [of cmp x xs] by (metis set_mset_add_mset_insert set_mset_mset)

lemma sorted_insort_cmp_key:
  fixes key :: "'a \<Rightarrow> int"
  assumes "\<And>x y. (cmp x y \<le> 0) = (key y \<le> key x)"
    and "sorted_wrt (\<lambda>a b. key b \<le> key a) xs"
  shows "sorted_wrt (\<lambda>a b. key b \<le> key a) (insort_cmp cmp x xs)"
  using assms(2)
proof (induction xs)
  case Nil
  then show ?case by simp
next
  case (Cons y ys)
  show ?case
  proof (cases "cmp x y \<le> 0")
    case True
    then have "key y \<le> key x" using assms(1) by simp
    with Cons.prems True show ?thesis by auto
  next
    case False
    then have "key x \<le> key y" using assms(1) [of x y] by linarith
    with Cons False show ?thesis by (auto simp: set_insort_cmp)
  qed
qed

lemma sorted_sort_cmp_key:
  fixes key :: "'a \<Rightarrow> int"
  assumes "\<And>x y. (cmp x y \<le> 0) = (key y \<le> key x)"
  shows "sorted_wrt (\<lambda>a b. key b \<le> key a) (sort_cmp cmp xs)"
proof (induction xs)
  case Nil
  then show ?case by (simp add: sort_cmp_def)
next
  case (Cons x xs)
  have "sort_cmp cmp (x # xs) = insort_cmp cmp x (sort_cmp cmp xs)"
    by (simp add: sort_cmp_def)
  with Cons sorted_insort_cmp_key [OF assms] show ?case by simp
qed

lemma descending_unique:
  fixes xs ys :: "int list"
  assumes "sorted_wrt (\<lambda>a b. b \<le> a) xs" and "sorted_wrt (\<lambda>a b. b \<le> a) ys"
    and "mset xs = mset ys"
  shows "xs = ys"
proof -
  have "sorted (rev xs)" "sorted (rev ys)"
    using assms(1,2) by (simp_all add: sorted_wrt_rev)
  moreover have "mset (rev xs) = mset (rev ys)" using assms(3) by simp
  ultimately have "rev xs = rev ys"
    by (metis sorted_sort_id properties_for_sort)
  then show ?thesis by simp
qed

lemma ranks_of_sorted_cards:
  "sorted_wrt (\<lambda>a b. b \<le> a) (map fst (sort_cmp (\<lambda>a b. fst b - fst a) (cards :: card list)))"
proof -
  have "sorted_wrt (\<lambda>a b. fst b \<le> fst a) (sort_cmp (\<lambda>a b. fst b - fst a) cards)"
    by (rule sorted_sort_cmp_key) auto
  then show ?thesis by (simp add: sorted_wrt_map)
qed

lemma sorted_ranks_determined:
  assumes "mset (map fst (cards :: card list)) = mset rs" and "sorted_wrt (\<lambda>a b. b \<le> a) rs"
  shows "map fst (sort_cmp (\<lambda>a b. fst b - fst a) cards) = rs"
proof (rule descending_unique)
  show "sorted_wrt (\<lambda>a b. b \<le> a) (map fst (sort_cmp (\<lambda>a b. fst b - fst a) cards))"
    by (rule ranks_of_sorted_cards)
  show "sorted_wrt (\<lambda>a b. b \<le> a) rs" by (rule assms(2))
  have "mset (map fst (sort_cmp (\<lambda>a b. fst b - fst a) cards)) = mset (map fst cards)"
    by (simp add: mset_sort_cmp)
  then show "mset (map fst (sort_cmp (\<lambda>a b. fst b - fst a) cards)) = mset rs"
    using assms(1) by simp
qed

lemma flush_flag_mixed:
  assumes "a \<in> set cards" "b \<in> set cards" "snd a \<noteq> snd b"
  shows "\<not> list_all (\<lambda>s. s = hd (map snd (sort_cmp cmp cards))) (map snd (sort_cmp cmp cards))"
proof
  assume "list_all (\<lambda>s. s = hd (map snd (sort_cmp cmp cards))) (map snd (sort_cmp cmp cards))"
  then have "\<forall>c \<in> set (sort_cmp cmp cards). snd c = hd (map snd (sort_cmp cmp cards))"
    by (simp add: list_all_iff)
  with assms show False by (simp add: set_sort_cmp)
qed

section \<open>The wheel\<close>

lemma wheel_info: "straightInfo [14, 5, 4, 3, 2] = (True, 5)" by code_simp

lemma wheel_counts: "byCount [14, 5, 4, 3, 2] = [(14,1),(5,1),(4,1),(3,1),(2,1)]" by code_simp

lemma six_info: "straightInfo [6, 5, 4, 3, 2] = (True, 6)" by code_simp

lemma six_counts: "byCount [6, 5, 4, 3, 2] = [(6,1),(5,1),(4,1),(3,1),(2,1)]" by code_simp

lemma evaluate5_wheel:
  assumes "mset (map fst cards) = {#14, 5, 4, 3, 2#}"
    and "a \<in> set cards" "b \<in> set cards" "snd a \<noteq> snd b"
  shows "evaluate5 cards = Some [4, 5]"
proof -
  have r: "map fst (sort_cmp (\<lambda>a b. fst b - fst a) cards) = [14, 5, 4, 3, 2]"
    by (rule sorted_ranks_determined) (use assms(1) in simp_all)
  have ne: "cards \<noteq> []" using assms(2) by auto
  show ?thesis
    using flush_flag_mixed [OF assms(2,3,4), of "\<lambda>a b. fst b - fst a"] ne
    by (simp add: evaluate5_def Let_def r wheel_info wheel_counts classify_def)
qed

lemma evaluate5_six_high:
  assumes "mset (map fst cards) = {#6, 5, 4, 3, 2#}"
  shows "evaluate5 cards = Some [4, 6] \<or> evaluate5 cards = Some [8, 6]"
proof -
  have r: "map fst (sort_cmp (\<lambda>a b. fst b - fst a) cards) = [6, 5, 4, 3, 2]"
    by (rule sorted_ranks_determined) (use assms(1) in simp_all)
  have ne: "cards \<noteq> []" using assms by auto
  show ?thesis
    using ne by (simp add: evaluate5_def Let_def r six_info six_counts classify_def)
qed

lemma set_uniqueFrom: "set (uniqueFrom seen xs) = set xs - set seen"
  by (induction xs arbitrary: seen) auto

lemma set_unique: "set (unique xs) = set xs"
  by (simp add: unique_def set_uniqueFrom)

lemma classify_straight:
  assumes "classify fl st bc ranks = c # t # rest" and "c = 4 \<or> c = 8"
  shows "fst st \<and> t = snd st"
  using assms by (auto simp: classify_def Let_def split: if_splits)

lemma descending_hd_max:
  fixes xs :: "int list"
  assumes "sorted_wrt (\<lambda>a b. b \<le> a) xs" and "x \<in> set xs"
  shows "x \<le> hd xs"
  using assms by (cases xs) auto

lemma straightInfo_top:
  assumes "straightInfo ranks = (True, t)"
    and "\<forall>r \<in> set ranks. r \<le> 14" and "14 \<in> set ranks"
  shows "t = 14 \<or> (t = 5 \<and> set ranks = {14, 5, 4, 3, 2})"
proof -
  define su where "su = sort_cmp (\<lambda>a b. b - a) (unique ranks)"
  have set_su: "set su = set ranks"
    by (simp add: su_def set_sort_cmp set_unique)
  have desc: "sorted_wrt (\<lambda>a b. b \<le> a) su"
    unfolding su_def using sorted_sort_cmp_key [of "\<lambda>a b. b - a" "\<lambda>r. r" "unique ranks"]
    by simp
  from assms(1) have "(consecutive su \<and> t = hd su)
      \<or> (sort_cmp (\<lambda>a b. b - a) su = [14, 5, 4, 3, 2] \<and> t = 5)"
    by (auto simp: straightInfo_def Let_def su_def split: if_splits)
  then show ?thesis
  proof
    assume c: "consecutive su \<and> t = hd su"
    have ne: "su \<noteq> []" using set_su assms(3) by auto
    have "14 \<le> hd su" using descending_hd_max [OF desc] set_su assms(3) by simp
    moreover have "hd su \<le> 14" using ne set_su assms(2) by (metis hd_in_set)
    ultimately show ?thesis using c by simp
  next
    assume w: "sort_cmp (\<lambda>a b. b - a) su = [14, 5, 4, 3, 2] \<and> t = 5"
    then have "set (sort_cmp (\<lambda>a b. b - a) su) = {14, 5, 4, 3, 2}" by simp
    then have "set ranks = {14, 5, 4, 3, 2}" by (simp add: set_sort_cmp set_su)
    with w show ?thesis by simp
  qed
qed

lemma evaluate5_ace_low:
  assumes "evaluate5 hand = Some (c # t # rest)" and "c = 4 \<or> c = 8"
    and "\<forall>x \<in> set hand. fst x \<le> 14" and "\<exists>x \<in> set hand. fst x = 14"
  shows "t = 14 \<or> (t = 5 \<and> fst ` set hand = {14, 5, 4, 3, 2})"
proof -
  define ranks where "ranks = map fst (sort_cmp (\<lambda>a b. fst b - fst a) hand)"
  have set_ranks: "set ranks = fst ` set hand"
    by (simp add: ranks_def set_sort_cmp)
  from assms(1) obtain fl where
    cl: "classify fl (straightInfo ranks) (byCount ranks) ranks = c # t # rest"
    by (auto simp: evaluate5_def Let_def ranks_def split: if_splits)
  from classify_straight [OF cl assms(2)]
  have "straightInfo ranks = (True, t)" by (cases "straightInfo ranks") simp
  moreover have "\<forall>r \<in> set ranks. r \<le> 14" using assms(3) set_ranks by auto
  moreover have "14 \<in> set ranks" using assms(4) set_ranks by force
  ultimately have "t = 14 \<or> (t = 5 \<and> set ranks = {14, 5, 4, 3, 2})"
    by (rule straightInfo_top)
  then show ?thesis using set_ranks by simp
qed

text \<open>
  Claim C8 (wheel straight): five cards of ranks 14, 5, 4, 3, 2 that are not all of one suit
  evaluate to a straight (code 4) with top rank 5, which \<open>compareEval\<close> puts strictly
  below the evaluation of any 2-3-4-5-6 hand; and whenever a hand that holds an ace is
  evaluated as a straight or a straight flush, its top rank is the ace unless the ranks are
  those of the wheel.
\<close>

theorem wheel_straight:
  shows "(mset (map fst cards) = {#14, 5, 4, 3, 2#}
            \<and> (\<exists>a \<in> set cards. \<exists>b \<in> set cards. snd a \<noteq> snd b)
          \<longrightarrow> evaluate5 cards = Some [4, 5]
              \<and> (mset (map fst six) = {#6, 5, 4, 3, 2#}
                 \<longrightarrow> (\<exists>e. evaluate5 six = Some e \<and> compareEval [4, 5] e = -1)))
       \<and> (evaluate5 hand = Some (c # t # rest) \<and> (c = 4 \<or> c = 8)
            \<and> (\<forall>x \<in> set hand. fst x \<le> 14) \<and> (\<exists>x \<in> set hand. fst x = 14)
          \<longrightarrow> t = 14 \<or> (t = 5 \<and> fst ` set hand = {14, 5, 4, 3, 2}))"
proof (intro conjI impI)
  assume h: "mset (map fst cards) = {#14, 5, 4, 3, 2#}
             \<and> (\<exists>a \<in> set cards. \<exists>b \<in> set cards. snd a \<noteq> snd b)"
  then show "evaluate5 cards = Some [4, 5]" using evaluate5_wheel by blast
next
  assume "mset (map fst six) = {#6, 5, 4, 3, 2#}"
  from evaluate5_six_high [OF this]
  show "\<exists>e. evaluate5 six = Some e \<and> compareEval [4, 5] e = -1" by auto
next
  assume "evaluate5 hand = Some (c # t # rest) \<and> (c = 4 \<or> c = 8)
            \<and> (\<forall>x \<in> set hand. fst x \<le> 14) \<and> (\<exists>x \<in> set hand. fst x = 14)"
  then show "t = 14 \<or> (t = 5 \<and> fst ` set hand = {14, 5, 4, 3, 2})"
    using evaluate5_ace_low [of hand c t rest] by blast
qed

theorem wheel_straight_witness:
  "evaluate5 wheelHand = Some [4, 5]
   \<and> evaluate5 sixHighHand = Some [4, 6]
   \<and> compareEval [4, 5] [4, 6] = -1
   \<and> evaluate5 broadwayHand = Some [4, 14]"
proof -
  have m: "mset (map fst wheelHand) = {#14, 5, 4, 3, 2#}" by (simp add: wheelHand_def)
  have "(3, Hearts) \<in> set wheelHand" and "(14, Spades) \<in> set wheelHand"
    by (simp_all add: wheelHand_def)
  then have x: "\<exists>a \<in> set wheelHand. \<exists>b \<in> set wheelHand. snd a \<noteq> snd b"
    by force
  have s: "mset (map fst sixHighHand) = {#6, 5, 4, 3, 2#}" by (simp add: sixHighHand_def)
  have b: "evaluate5 broadwayHand = Some (4 # 14 # [])" by code_simp
  have r: "\<forall>x \<in> set broadwayHand. fst x \<le> 14" by (simp add: broadwayHand_def)
  have "(14, Spades) \<in> set broadwayHand" by (simp add: broadwayHand_def)
  then have a: "\<exists>x \<in> set broadwayHand. fst x = 14" by force
  have e6: "evaluate5 sixHighHand = Some [4, 6]" by code_simp
  from wheel_straight [of wheelHand sixHighHand broadwayHand 4 14 "[]"] m x s b r a e6
  show ?thesis by auto
qed

section \<open>Frame lemmas for the seat helpers\<close>

lemma seat_at_Some_range:
  "seat_at t i = Some s \<Longrightarrow> 0 \<le> i \<and> i < int (length (seats t)) \<and> seats t ! nat i = Some s"
  by (simp add: seat_at_def split: if_splits)

lemma modSeat_frame [simp]:
  "stage (modSeat i f t) = stage t"
  "community (modSeat i f t) = community t"
  "deck (modSeat i f t) = deck t"
  "pot (modSeat i f t) = pot t"
  "dealerIndex (modSeat i f t) = dealerIndex t"
  "currentTurnIndex (modSeat i f t) = currentTurnIndex t"
  "currentBetToCall (modSeat i f t) = currentBetToCall t"
  "lastRaiseAmount (modSeat i f t) = lastRaiseAmount t"
  "table_id (modSeat i f t) = table_id t"
  "length (seats (modSeat i f t)) = length (seats t)"
  by (simp_all add: modSeat_def split: option.splits)

lemma seat_at_modSeat:
  "seat_at (modSeat i f t) j = (if j = i then map_option f (seat_at t i) else seat_at t j)"
proof (cases "seat_at t i")
  case None
  then show ?thesis by (simp add: modSeat_def)
next
  case (Some s)
  from seat_at_Some_range [OF Some] have r: "0 \<le> i" "i < int (length (seats t))" by simp_all
  show ?thesis
  proof (cases "j = i")
    case True
    with Some r show ?thesis by (simp add: modSeat_def seat_at_def)
  next
    case False
    then have "0 \<le> j \<Longrightarrow> nat i \<noteq> nat j" using r by linarith
    with Some r False show ?thesis by (auto simp: modSeat_def seat_at_def)
  qed
qed

lemma forSeats_frame [simp]:
  "stage (forSeats f t) = stage t"
  "community (forSeats f t) = community t"
  "deck (forSeats f t) = deck t"
  "pot (forSeats f t) = pot t"
  "dealerIndex (forSeats f t) = dealerIndex t"
  "currentTurnIndex (forSeats f t) = currentTurnIndex t"
  "currentBetToCall (forSeats f t) = currentBetToCall t"
  "lastRaiseAmount (forSeats f t) = lastRaiseAmount t"
  "table_id (forSeats f t) = table_id t"
  "length (seats (forSeats f t)) = length (seats t)"
  by (simp_all add: forSeats_def)

lemma seat_at_forSeats: "seat_at (forSeats f t) j = map_option f (seat_at t j)"
proof (cases "0 \<le> j \<and> j < int (length (seats t))")
  case True
  then have "nat j < length (seats t)" by linarith
  with True show ?thesis by (simp add: seat_at_def forSeats_def)
next
  case False
  then show ?thesis by (auto simp: seat_at_def forSeats_def)
qed

lemma commitChips_frame [simp]:
  "stage (commitChips i x t) = stage t"
  "community (commitChips i x t) = community t"
  "deck (commitChips i x t) = deck t"
  "pot (commitChips i x t) = pot t + x"
  "dealerIndex (commitChips i x t) = dealerIndex t"
  "currentTurnIndex (commitChips i x t) = currentTurnIndex t"
  "currentBetToCall (commitChips i x t) = currentBetToCall t"
  "lastRaiseAmount (commitChips i x t) = lastRaiseAmount t"
  "table_id (commitChips i x t) = table_id t"
  "length (seats (commitChips i x t)) = length (seats t)"
  by (simp_all add: commitChips_def)

lemma seat_at_update_other [simp]:
  "seat_at (t\<lparr>pot := p\<rparr>) j = seat_at t j"
  "seat_at (t\<lparr>stage := g\<rparr>) j = seat_at t j"
  "seat_at (t\<lparr>deck := d\<rparr>) j = seat_at t j"
  "seat_at (t\<lparr>community := c\<rparr>) j = seat_at t j"
  "seat_at (t\<lparr>currentBetToCall := b\<rparr>) j = seat_at t j"
  "seat_at (t\<lparr>lastRaiseAmount := r\<rparr>) j = seat_at t j"
  "seat_at (t\<lparr>currentTurnIndex := k\<rparr>) j = seat_at t j"
  "seat_at (t\<lparr>dealerIndex := k\<rparr>) j = seat_at t j"
  by (simp_all add: seat_at_def)

lemma seat_at_commitChips:
  "seat_at (commitChips i x t) j =
     (if j = i then map_option (\<lambda>s. s\<lparr>chips := chips s - x, currentBet := currentBet s + x,
                                       totalContributed := totalContributed s + x\<rparr>) (seat_at t i)
      else seat_at t j)"
  by (simp add: commitChips_def seat_at_modSeat)

lemma markAllIn_frame [simp]:
  "stage (markAllIn i t) = stage t"
  "community (markAllIn i t) = community t"
  "deck (markAllIn i t) = deck t"
  "pot (markAllIn i t) = pot t"
  "dealerIndex (markAllIn i t) = dealerIndex t"
  "currentTurnIndex (markAllIn i t) = currentTurnIndex t"
  "currentBetToCall (markAllIn i t) = currentBetToCall t"
  "lastRaiseAmount (markAllIn i t) = lastRaiseAmount t"
  "table_id (markAllIn i t) = table_id t"
  "length (seats (markAllIn i t)) = length (seats t)"
  by (simp_all add: markAllIn_def)

lemma seat_at_markAllIn:
  "seat_at (markAllIn i t) j =
     (if j = i then map_option (\<lambda>s. if chips s = 0 then s\<lparr>allIn := Some True\<rparr> else s) (seat_at t i)
      else seat_at t j)"
  by (simp add: markAllIn_def seat_at_modSeat)

section \<open>Street advancement\<close>

lemma popCard_length: "length (snd (popCard d)) = length d - 1"
  by (simp add: popCard_def)

lemma dealBoard_frame [simp]:
  "stage (dealBoard t) = stage t"
  "seats (dealBoard t) = seats t"
  "pot (dealBoard t) = pot t"
  "dealerIndex (dealBoard t) = dealerIndex t"
  "length (community (dealBoard t)) = Suc (length (community t))"
  by (simp_all add: dealBoard_def split: prod.splits)

lemma openRound_frame [simp]:
  "stage (openRound cfg t) = stage t"
  "seats (openRound cfg t) = seats t"
  "community (openRound cfg t) = community t"
  "pot (openRound cfg t) = pot t"
  "dealerIndex (openRound cfg t) = dealerIndex t"
  by (simp_all add: openRound_def Let_def)

lemma advanceStage_streets:
  assumes "stage t = Preflop \<or> stage t = Flop \<or> stage t = Turn"
  shows "(stage t = Preflop \<and> stage (advanceStage cfg t) = Flop
            \<and> length (community (advanceStage cfg t)) = length (community t) + 3)
       \<or> (stage t = Flop \<and> stage (advanceStage cfg t) = Turn
            \<and> length (community (advanceStage cfg t)) = length (community t) + 1)
       \<or> (stage t = Turn \<and> stage (advanceStage cfg t) = River
            \<and> length (community (advanceStage cfg t)) = length (community t) + 1)"
  using assms by (auto simp: advanceStage_def Let_def)

lemma advanceStage_keeps_chips:
  assumes "stage t = Preflop \<or> stage t = Flop \<or> stage t = Turn"
  shows "pot (advanceStage cfg t) = pot t
       \<and> map (map_option chips) (seats (advanceStage cfg t)) = map (map_option chips) (seats t)"
  using assms by (auto simp: advanceStage_def Let_def forSeats_def option.map_comp comp_def)

section \<open>Scanning the ring of seats\<close>

lemma seat_at_nth:
  "j < length (seats t) \<Longrightarrow> seat_at t (int j) = seats t ! j"
  by (simp add: seat_at_def)

lemma allActive_iff: "allActive t = (\<forall>j s. seat_at t j = Some s \<longrightarrow> active s)"
proof
  assume a: "allActive t"
  show "\<forall>j s. seat_at t j = Some s \<longrightarrow> active s"
  proof (intro allI impI)
    fix j s assume "seat_at t j = Some s"
    from seat_at_Some_range [OF this] have "Some s \<in> set (seats t)"
      by (metis nat_less_iff nth_mem)
    with a show "active s" by (auto simp: allActive_def list_all_iff)
  qed
next
  assume r: "\<forall>j s. seat_at t j = Some s \<longrightarrow> active s"
  show "allActive t"
    unfolding allActive_def list_all_iff
  proof
    fix so assume "so \<in> set (seats t)"
    then obtain k where k: "k < length (seats t)" "seats t ! k = so"
      by (auto simp: in_set_conv_nth)
    then have "seat_at t (int k) = so" by (simp add: seat_at_nth)
    with r show "case so of None \<Rightarrow> True | Some s \<Rightarrow> active s"
      by (cases so) auto
  qed
qed

lemma betting_complete_iff:
  "isBettingRoundComplete t =
     (\<forall>j s. seat_at t j = Some s \<and> \<not> folded s \<and> \<not> truthy (allIn s)
            \<longrightarrow> currentBet s = currentBetToCall t)"
proof
  assume a: "isBettingRoundComplete t"
  show "\<forall>j s. seat_at t j = Some s \<and> \<not> folded s \<and> \<not> truthy (allIn s)
            \<longrightarrow> currentBet s = currentBetToCall t"
  proof (intro allI impI)
    fix j s assume h: "seat_at t j = Some s \<and> \<not> folded s \<and> \<not> truthy (allIn s)"
    then have "Some s \<in> set (seats t)"
      using seat_at_Some_range [of t j s] by (metis nat_less_iff nth_mem)
    with a h show "currentBet s = currentBetToCall t"
      by (auto simp: isBettingRoundComplete_def list_all_iff)
  qed
next
  assume r: "\<forall>j s. seat_at t j = Some s \<and> \<not> folded s \<and> \<not> truthy (allIn s)
            \<longrightarrow> currentBet s = currentBetToCall t"
  show "isBettingRoundComplete t"
    unfolding isBettingRoundComplete_def list_all_iff
  proof
    fix so assume "so \<in> set (seats t)"
    then obtain k where k: "k < length (seats t)" "seats t ! k = so"
      by (auto simp: in_set_conv_nth)
    then have "seat_at t (int k) = so" by (simp add: seat_at_nth)
    with r show "case so of None \<Rightarrow> True
                 | Some s \<Rightarrow> folded s \<or> truthy (allIn s) \<or> currentBet s = currentBetToCall t"
      by (cases so) auto
  qed
qed

lemma ring_covers:
  assumes "0 \<le> s" and "0 \<le> j" and "j < int (length (seats t))"
  shows "j \<in> set (ring t s)"
proof -
  define n where "n = int (length (seats t))"
  have npos: "0 < n" using assms n_def by linarith
  define k where "k = (j - s) mod n"
  define i where "i = (if k = 0 then n else k)"
  have k: "0 \<le> k" "k < n" using npos by (simp_all add: k_def)
  have i: "1 \<le> i" "i \<le> n" using k npos by (auto simp: i_def)
  have "(s + i) mod n = (s + k) mod n" by (simp add: i_def)
  also have "\<dots> = j mod n" by (simp add: k_def mod_add_right_eq)
  also have "\<dots> = j" using assms n_def by simp
  finally have e: "(s + i) mod n = j" .
  have "js_rem (s + int (nat i)) n = j"
    using e i assms(1) npos by (simp add: js_rem_def)
  then have v: "j = (\<lambda>i. js_rem (s + int i) (int (length (seats t)))) (nat i)"
    by (simp add: n_def)
  have m: "nat i \<in> set [1..<Suc (length (seats t))]"
    using i n_def by auto
  from v m show ?thesis
    unfolding ring_def set_map by (rule image_eqI)
qed

lemma firstSeat_Some_seat:
  assumes "firstSeat t s ok = Some c"
  shows "\<exists>x. seat_at t c = Some x \<and> ok x"
  using assms unfolding firstSeat_def
  by (auto simp: find_Some_iff split: option.splits)

lemma firstSeat_finds:
  assumes "0 \<le> s" and "seat_at t j = Some x" and "ok x"
  shows "firstSeat t s ok \<noteq> None"
proof -
  from seat_at_Some_range [OF assms(2)] have "j \<in> set (ring t s)"
    using ring_covers [OF assms(1)] by simp
  with assms(2,3) show ?thesis
    unfolding firstSeat_def by (auto simp: find_None_iff)
qed

lemma nextOccupiedFrom_minus1:
  "(nextOccupiedFrom t s = -1)
     = (firstSeat t s (\<lambda>x. active x \<and> \<not> folded x \<and> \<not> truthy (allIn x)) = None)"
proof (cases "firstSeat t s (\<lambda>x. active x \<and> \<not> folded x \<and> \<not> truthy (allIn x))")
  case None
  then show ?thesis by (simp add: nextOccupiedFrom_def)
next
  case (Some c)
  from firstSeat_Some_seat [OF Some] seat_at_Some_range have "0 \<le> c" by blast
  with Some show ?thesis by (simp add: nextOccupiedFrom_def)
qed

lemma open_round_has_next:
  assumes "allActive t" and "\<not> isBettingRoundComplete t" and "0 \<le> s"
  shows "nextOccupiedFrom t s \<noteq> -1"
proof -
  from assms(2) obtain j x where
    x: "seat_at t j = Some x" "\<not> folded x" "\<not> truthy (allIn x)"
    by (auto simp: betting_complete_iff)
  with assms(1) have "active x" by (auto simp: allActive_iff)
  with x firstSeat_finds [OF assms(3) x(1), of "\<lambda>x. active x \<and> \<not> folded x \<and> \<not> truthy (allIn x)"]
  show ?thesis by (simp add: nextOccupiedFrom_minus1)
qed

section \<open>Round completion\<close>

lemma betting_complete_turn [simp]:
  "isBettingRoundComplete (t\<lparr>currentTurnIndex := k\<rparr>) = isBettingRoundComplete t"
  by (simp add: betting_complete_iff)

lemma allActive_turn [simp]: "allActive (t\<lparr>currentTurnIndex := k\<rparr>) = allActive t"
  by (simp add: allActive_def)

lemma turnDecision_Advance:
  assumes "turnDecision t = Advance t2" and "allActive t" and "0 \<le> currentTurnIndex t"
  shows "isBettingRoundComplete t2"
proof (cases "isBettingRoundComplete t")
  case True
  with assms(1) show ?thesis
    by (auto simp: turnDecision_def Let_def split: if_splits)
next
  case False
  from open_round_has_next [OF assms(2) False assms(3)]
  have "nextOccupiedFrom t (currentTurnIndex t) \<noteq> -1" .
  with assms(1) show ?thesis
    by (auto simp: turnDecision_def Let_def split: if_splits)
qed

lemma applyAction_guard:
  assumes "applyAction cfg i a t = Applied t1"
  shows "\<exists>s. seat_at t i = Some s \<and> \<not> folded s \<and> \<not> truthy (allIn s) \<and> currentTurnIndex t = i"
proof (cases "seat_at t i")
  case None
  with assms show ?thesis by (simp add: applyAction_def)
next
  case (Some s)
  with assms have "\<not> (folded s \<or> truthy (allIn s))" "currentTurnIndex t = i"
    by (simp_all add: applyAction_def split: if_splits)
  with Some show ?thesis by simp
qed

lemma applyAction_forms:
  assumes "applyAction cfg i a t = Applied t1"
  shows "t1 = t
       \<or> t1 = modSeat i (\<lambda>s. s\<lparr>folded := True\<rparr>) t
       \<or> (\<exists>x. t1 = markAllIn i (commitChips i x t))
       \<or> (\<exists>x b r. t1 = markAllIn i ((commitChips i x t)\<lparr>lastRaiseAmount := r, currentBetToCall := b\<rparr>))"
proof -
  from applyAction_guard [OF assms] obtain s where
    s: "seat_at t i = Some s" "\<not> folded s" "\<not> truthy (allIn s)" "currentTurnIndex t = i"
    by blast
  show ?thesis
  proof (cases a)
    case Fold
    with assms s show ?thesis by (simp add: applyAction_def)
  next
    case Check
    with assms s show ?thesis by (simp add: applyAction_def split: if_splits)
  next
    case Call
    with assms s have "t1 = markAllIn i (commitChips i (min (currentBetToCall t - currentBet s) (chips s)) t)"
      by (simp add: applyAction_def Let_def)
    then show ?thesis by blast
  next
    case (Raise amt)
    define ra where "ra = (case amt of None \<Rightarrow> 0 | Some x \<Rightarrow> x)"
    define x where "x = min (currentBetToCall t - currentBet s + ra) (chips s)"
    from Raise assms s have r: "\<not> ra < max (lastRaiseAmount t) (BIG_BLIND cfg)"
      by (auto simp: applyAction_def Let_def ra_def split: if_splits)
    show ?thesis
    proof (cases "currentBet s + x > currentBetToCall t")
      case True
      with Raise assms s r have
        "t1 = markAllIn i ((commitChips i x t)\<lparr>lastRaiseAmount := ra,
                currentBetToCall := currentBet s + x\<rparr>)"
        by (simp add: applyAction_def Let_def x_def ra_def)
      then show ?thesis by blast
    next
      case False
      with Raise assms s r have "t1 = markAllIn i (commitChips i x t)"
        by (simp add: applyAction_def Let_def x_def ra_def)
      then show ?thesis by blast
    qed
  qed
qed

lemma seat_at_table_update [simp]:
  "seat_at (t\<lparr>lastRaiseAmount := r, currentBetToCall := b\<rparr>) j = seat_at t j"
  by (simp add: seat_at_def)

lemma markAllIn_update_commute:
  "markAllIn i (t\<lparr>lastRaiseAmount := r, currentBetToCall := b\<rparr>)
     = (markAllIn i t)\<lparr>lastRaiseAmount := r, currentBetToCall := b\<rparr>"
  by (simp add: markAllIn_def modSeat_def split: option.splits)

lemma applyAction_Applied:
  assumes "applyAction cfg i a t = Applied t1"
  shows "currentTurnIndex t1 = i \<and> 0 \<le> i \<and> length (seats t1) = length (seats t)
       \<and> (\<forall>j. map_option active (seat_at t1 j) = map_option active (seat_at t j))
       \<and> (\<forall>j. map_option pubkey (seat_at t1 j) = map_option pubkey (seat_at t j))
       \<and> stage t1 = stage t \<and> community t1 = community t \<and> deck t1 = deck t
       \<and> dealerIndex t1 = dealerIndex t"
proof -
  from applyAction_guard [OF assms] obtain s where
    s: "seat_at t i = Some s" "currentTurnIndex t = i" by blast
  from seat_at_Some_range [OF s(1)] have i0: "0 \<le> i" by simp
  from applyAction_forms [OF assms] show ?thesis
  proof (elim disjE exE)
    assume "t1 = t"
    with s i0 show ?thesis by simp
  next
    assume "t1 = modSeat i (\<lambda>s. s\<lparr>folded := True\<rparr>) t"
    with s i0 show ?thesis by (simp add: seat_at_modSeat option.map_comp comp_def)
  next
    fix x assume "t1 = markAllIn i (commitChips i x t)"
    with s i0 show ?thesis
      by (simp add: seat_at_markAllIn seat_at_commitChips option.map_comp comp_def)
  next
    fix x b r
    assume "t1 = markAllIn i ((commitChips i x t)\<lparr>lastRaiseAmount := r, currentBetToCall := b\<rparr>)"
    with s i0 show ?thesis
      by (simp add: markAllIn_update_commute seat_at_markAllIn seat_at_commitChips
          option.map_comp comp_def)
  qed
qed

lemma allActive_cong:
  assumes "\<forall>j. map_option active (seat_at t1 j) = map_option active (seat_at t j)"
    and "allActive t"
  shows "allActive t1"
  unfolding allActive_iff
proof (intro allI impI)
  fix j s assume "seat_at t1 j = Some s"
  with assms(1) have "map_option active (seat_at t j) = Some (active s)" by (metis option.simps(9))
  then obtain s' where "seat_at t j = Some s'" "active s' = active s" by auto
  with assms(2) show "active s" by (auto simp: allActive_iff)
qed

lemma timeoutDecision_FoldAdvance:
  assumes "timeoutDecision t = FoldAdvance t1" and "allActive t"
  shows "isBettingRoundComplete t1"
proof -
  define i where "i = currentTurnIndex t"
  from assms(1) obtain s where s: "seat_at t i = Some s"
    and t1: "t1 = modSeat i (\<lambda>s. s\<lparr>folded := True\<rparr>) t"
    by (auto simp: timeoutDecision_def Let_def i_def split: option.splits if_splits)
  from seat_at_Some_range [OF s] have i0: "0 \<le> i" by simp
  have "allActive t1"
    by (rule allActive_cong [OF _ assms(2)])
       (simp add: t1 seat_at_modSeat option.map_comp comp_def)
  show ?thesis
  proof (rule ccontr)
    assume n: "\<not> isBettingRoundComplete t1"
    from open_round_has_next [OF \<open>allActive t1\<close> n i0]
    have "nextOccupiedFrom t1 i \<noteq> -1" .
    with assms(1) n s show False
      by (auto simp: timeoutDecision_def Let_def i_def t1 split: if_splits)
  qed
qed

text \<open>
  Claim C2 (betting-round completion), as amended: \<open>handleAction\<close> and the timeout call
  \<open>advanceStage\<close> only on a table where every unfolded seat that is not all-in has its
  current bet equal to the bet to call (all occupied seats being active, as \<open>seatPlayer\<close>
  makes them). Whether those seats have acted since the last raise plays no part.
\<close>

theorem round_advances_only_when_bets_match:
  assumes "allActive t"
    and "(applyAction cfg i a t = Applied t1 \<and> turnDecision t1 = Advance t2)
       \<or> timeoutDecision t = FoldAdvance t2"
  shows "\<forall>j s. seat_at t2 j = Some s \<and> \<not> folded s \<and> \<not> truthy (allIn s)
            \<longrightarrow> currentBet s = currentBetToCall t2"
proof -
  have "isBettingRoundComplete t2"
    using assms(2)
  proof
    assume h: "applyAction cfg i a t = Applied t1 \<and> turnDecision t1 = Advance t2"
    from applyAction_Applied [of cfg i a t t1] h
    have p: "currentTurnIndex t1 = i" "0 \<le> i"
      "\<forall>j. map_option active (seat_at t1 j) = map_option active (seat_at t j)"
      by blast+
    have "allActive t1" by (rule allActive_cong [OF p(3) assms(1)])
    with h p show ?thesis using turnDecision_Advance [of t1 t2] by simp
  next
    assume "timeoutDecision t = FoldAdvance t2"
    then show ?thesis using assms(1) by (rule timeoutDecision_FoldAdvance)
  qed
  then show ?thesis by (simp only: betting_complete_iff)
qed

theorem round_advances_only_when_bets_match_witness:
  "allActive headsUp
   \<and> applyAction defaultConfig 1 Call headsUp = Applied calledTable
   \<and> turnDecision calledTable = Advance (calledTable\<lparr>currentTurnIndex := 0\<rparr>)
   \<and> map_option currentBet (seat_at (calledTable\<lparr>currentTurnIndex := 0\<rparr>) 0)
       = Some (currentBetToCall (calledTable\<lparr>currentTurnIndex := 0\<rparr>))
   \<and> map_option currentBet (seat_at (calledTable\<lparr>currentTurnIndex := 0\<rparr>) 1)
       = Some (currentBetToCall (calledTable\<lparr>currentTurnIndex := 0\<rparr>))"
proof -
  define t2 where "t2 = calledTable\<lparr>currentTurnIndex := 0\<rparr>"
  have a: "allActive headsUp" by code_simp
  have b: "applyAction defaultConfig 1 Call headsUp = Applied calledTable"
    by code_simp
  have c: "turnDecision calledTable = Advance t2"
    unfolding t2_def by code_simp
  have s0: "seat_at t2 0 = Some (the (seat_at t2 0))"
    and f0: "\<not> folded (the (seat_at t2 0))" and i0: "\<not> truthy (allIn (the (seat_at t2 0)))"
    and s1: "seat_at t2 1 = Some (the (seat_at t2 1))"
    and f1: "\<not> folded (the (seat_at t2 1))" and i1: "\<not> truthy (allIn (the (seat_at t2 1)))"
    unfolding t2_def by code_simp+
  from b c have d: "(applyAction defaultConfig 1 Call headsUp = Applied calledTable
      \<and> turnDecision calledTable = Advance t2)
     \<or> timeoutDecision headsUp = FoldAdvance t2"
    by simp
  note r = round_advances_only_when_bets_match [OF a d]
  from r s0 f0 i0 have "currentBet (the (seat_at t2 0)) = currentBetToCall t2" by blast
  with s0 have 0: "map_option currentBet (seat_at t2 0) = Some (currentBetToCall t2)"
    by (metis option.simps(9))
  from r s1 f1 i1 have "currentBet (the (seat_at t2 1)) = currentBetToCall t2" by blast
  with s1 have 1: "map_option currentBet (seat_at t2 1) = Some (currentBetToCall t2)"
    by (metis option.simps(9))
  from a b c 0 1 show ?thesis unfolding t2_def by simp
qed

text \<open>
  Claim C2 as stated fails. Heads-up before the flop, the small blind (seat 1) calls; the
  bets are then equal and the flop is dealt at once, although the big blind (seat 0),
  neither folded nor all-in, has not acted in the round.
\<close>

theorem flop_dealt_before_big_blind_acts:
  "stage headsUp = Preflop
   \<and> map_option currentBet (seat_at headsUp 0) = Some (BIG_BLIND defaultConfig)
   \<and> map_option folded (seat_at headsUp 0) = Some False
   \<and> map_option allIn (seat_at headsUp 0) = Some (Some False)
   \<and> stage (runActions defaultConfig [(1, Call)] headsUp) = Flop
   \<and> length (community (runActions defaultConfig [(1, Call)] headsUp)) = 3
   \<and> 0 \<notin> set (actedSinceRaise defaultConfig [] [(1, Call)] headsUp)"
  by code_simp

section \<open>No early showdown\<close>

lemma turnDecision_shape:
  assumes "turnDecision t = Advance t2 \<or> turnDecision t = Continue t2"
  shows "\<exists>k. t2 = t\<lparr>currentTurnIndex := k\<rparr>"
proof -
  have same: "t = t\<lparr>currentTurnIndex := currentTurnIndex t\<rparr>" by simp
  define n1 where "n1 = nextOccupiedFrom t (currentTurnIndex t)"
  define n2 where "n2 = findNextAny t (currentTurnIndex t)"
  from assms have "t2 = t \<or> t2 = t\<lparr>currentTurnIndex := n1\<rparr> \<or> t2 = t\<lparr>currentTurnIndex := n2\<rparr>"
    unfolding turnDecision_def Let_def n1_def n2_def
    by (auto split: if_splits)
  with same show ?thesis by metis
qed

lemma chips_modSeat:
  assumes "\<And>s. chips (f s) = chips s"
  shows "map (map_option chips) (seats (modSeat i f t)) = map (map_option chips) (seats t)"
proof (cases "seat_at t i")
  case None
  then show ?thesis by (simp add: modSeat_def)
next
  case (Some s)
  from seat_at_Some_range [OF Some]
  have r: "nat i < length (seats t)" "seats t ! nat i = Some s" by linarith+
  then have "map (map_option chips) (seats t) ! nat i = Some (chips s)" by simp
  with r(1)
  have "(map (map_option chips) (seats t))[nat i := Some (chips s)] = map (map_option chips) (seats t)"
    by (metis list_update_id)
  with Some show ?thesis by (simp add: modSeat_def map_update assms)
qed

lemma fold_then_decide:
  assumes st: "stage t = Preflop \<or> stage t = Flop \<or> stage t = Turn"
    and t1: "t1 = modSeat i (\<lambda>s. s\<lparr>folded := True\<rparr>) t"
    and t2: "t2 = t1\<lparr>currentTurnIndex := k\<rparr>"
    and t': "t' = advanceStage cfg t2 \<or> t' = t2"
  shows "pot t' = pot t
       \<and> map (map_option chips) (seats t') = map (map_option chips) (seats t)
       \<and> ((stage t' = stage t \<and> community t' = community t)
          \<or> (stage t = Preflop \<and> stage t' = Flop \<and> length (community t') = length (community t) + 3)
          \<or> (stage t = Flop \<and> stage t' = Turn \<and> length (community t') = length (community t) + 1)
          \<or> (stage t = Turn \<and> stage t' = River \<and> length (community t') = length (community t) + 1))"
proof -
  have f: "stage t2 = stage t" "community t2 = community t" "pot t2 = pot t"
    "map (map_option chips) (seats t2) = map (map_option chips) (seats t)"
    by (simp_all add: t1 t2 chips_modSeat)
  from t' show ?thesis
  proof
    assume "t' = t2"
    with f show ?thesis by simp
  next
    assume a: "t' = advanceStage cfg t2"
    from st f have st2: "stage t2 = Preflop \<or> stage t2 = Flop \<or> stage t2 = Turn" by simp
    from advanceStage_streets [OF st2, of cfg] advanceStage_keeps_chips [OF st2, of cfg] f a
    show ?thesis by auto
  qed
qed

text \<open>
  Claim C4 (early termination), as amended: a fold, by command or by timeout, during
  preflop, flop or turn never takes the hand to showdown, however few seats it leaves
  unfolded. No chips are paid out and the pot stays; the stage is unchanged, or it moves
  on by one street with that street's community cards dealt.
\<close>

theorem fold_never_ends_hand_before_river:
  assumes "stage t = Preflop \<or> stage t = Flop \<or> stage t = Turn"
    and "t' = handleAction cfg i Fold t \<or> t' = onTimeout cfg t"
  shows "pot t' = pot t
       \<and> map (map_option chips) (seats t') = map (map_option chips) (seats t)
       \<and> ((stage t' = stage t \<and> community t' = community t)
          \<or> (stage t = Preflop \<and> stage t' = Flop \<and> length (community t') = length (community t) + 3)
          \<or> (stage t = Flop \<and> stage t' = Turn \<and> length (community t') = length (community t) + 1)
          \<or> (stage t = Turn \<and> stage t' = River \<and> length (community t') = length (community t) + 1))"
  using assms(2)
proof
  assume h: "t' = handleAction cfg i Fold t"
  show ?thesis
  proof (cases "applyAction cfg i Fold t")
    case Ignored
    with h show ?thesis by (simp add: handleAction_def)
  next
    case Rejected
    with h show ?thesis by (simp add: handleAction_def)
  next
    case (Applied t1)
    from applyAction_guard [OF Applied] Applied
    have t1: "t1 = modSeat i (\<lambda>s. s\<lparr>folded := True\<rparr>) t"
      by (auto simp: applyAction_def)
    show ?thesis
    proof (cases "turnDecision t1")
      case (Advance t2)
      from turnDecision_shape [of t1 t2] Advance obtain k where "t2 = t1\<lparr>currentTurnIndex := k\<rparr>"
        by auto
      moreover from h Applied Advance have "t' = advanceStage cfg t2"
        by (simp add: handleAction_def)
      ultimately show ?thesis using fold_then_decide [OF assms(1) t1] by blast
    next
      case (Continue t2)
      from turnDecision_shape [of t1 t2] Continue obtain k where "t2 = t1\<lparr>currentTurnIndex := k\<rparr>"
        by auto
      moreover from h Applied Continue have "t' = t2"
        by (simp add: handleAction_def)
      ultimately show ?thesis using fold_then_decide [OF assms(1) t1] by blast
    qed
  qed
next
  assume h: "t' = onTimeout cfg t"
  define i where "i = currentTurnIndex t"
  define t1 where "t1 = modSeat i (\<lambda>s. s\<lparr>folded := True\<rparr>) t"
  have same: "t1 = t1\<lparr>currentTurnIndex := currentTurnIndex t1\<rparr>" by simp
  show ?thesis
  proof (cases "timeoutDecision t")
    case NoFold
    with h show ?thesis by (simp add: onTimeout_def)
  next
    case (FoldAdvance u)
    then have "u = t1"
      by (auto simp: timeoutDecision_def Let_def i_def t1_def split: option.splits if_splits)
    with h FoldAdvance have "t' = advanceStage cfg t1" by (simp add: onTimeout_def)
    with same show ?thesis using fold_then_decide [OF assms(1) t1_def, of t1 "currentTurnIndex t1" t' cfg]
      by simp
  next
    case (FoldContinue u)
    then obtain k where u: "u = t1\<lparr>currentTurnIndex := k\<rparr>"
      by (auto simp: timeoutDecision_def Let_def i_def t1_def split: option.splits if_splits)
    with h FoldContinue have "t' = u" by (simp add: onTimeout_def)
    with u show ?thesis using fold_then_decide [OF assms(1) t1_def u, of t' cfg] by simp
  qed
qed

theorem fold_never_ends_hand_before_river_witness:
  "stage headsUp = Preflop
   \<and> pot (handleAction defaultConfig 1 Fold headsUp) = pot headsUp
   \<and> stage (handleAction defaultConfig 1 Fold headsUp) = Flop
   \<and> stage (onTimeout defaultConfig headsUp) = Flop"
proof -
  have s: "stage headsUp = Preflop \<or> stage headsUp = Flop \<or> stage headsUp = Turn" by code_simp
  have p: "stage headsUp = Preflop" by code_simp
  have 1: "stage (handleAction defaultConfig 1 Fold headsUp) = Flop" by code_simp
  have 2: "stage (onTimeout defaultConfig headsUp) = Flop" by code_simp
  from fold_never_ends_hand_before_river [OF s, of "handleAction defaultConfig 1 Fold headsUp" defaultConfig 1]
  have "pot (handleAction defaultConfig 1 Fold headsUp) = pot headsUp" by simp
  with p 1 2 show ?thesis by simp
qed

text \<open>
  Claim C4 as stated fails. Heads-up before the flop, the small blind (seat 1) folds and
  one seat is left unfolded; the engine deals the flop and opens another betting round,
  with the pot of 3 chips not awarded.
\<close>

theorem lone_seat_sees_flop:
  "stage headsUp = Preflop
   \<and> map fst (activePlayers (handleAction defaultConfig 1 Fold headsUp)) = [0]
   \<and> stage (handleAction defaultConfig 1 Fold headsUp) = Flop
   \<and> length (community (handleAction defaultConfig 1 Fold headsUp)) = 3
   \<and> pot (handleAction defaultConfig 1 Fold headsUp) = 3
   \<and> map (map_option chips) (seats (handleAction defaultConfig 1 Fold headsUp))
        = [Some 998, Some 999, None, None, None, None]"
  by code_simp

section \<open>Side pots\<close>

text \<open>
  Claim C3 (side-pot correctness) fails on the engine, by the defect shown for claim C1.
  At the river of the heads-up hand the seats have contributed 2 and 1 chips, the second
  one by the seat that folded. The showdown builds its pots from the unfolded seats
  alone: one pot of 2 chips for seat 0. The pots sum to 2, the contributions to 3.
\<close>

theorem pots_leave_out_folded_chips:
  "stage riverTable = River
   \<and> pot riverTable = 3
   \<and> map (map_option totalContributed) (seats riverTable) = [Some 2, Some 1, None, None, None, None]
   \<and> map (map_option folded) (seats riverTable) = [Some False, Some True, None, None, None, None]
   \<and> map_option (\<lambda>rs. map (\<lambda>p. (amount p, eligibleIndices p)) (buildPots rs))
         (showdownResults (community riverTable) (activePlayers riverTable))
       = Some [(2, [0])]"
  by code_simp

section \<open>Seating\<close>

lemma proj_modSeat:
  assumes "\<And>s. g (f s) = g s"
  shows "map (map_option g) (seats (modSeat i f t)) = map (map_option g) (seats t)"
proof (cases "seat_at t i")
  case None
  then show ?thesis by (simp add: modSeat_def)
next
  case (Some s)
  from seat_at_Some_range [OF Some]
  have r: "nat i < length (seats t)" "seats t ! nat i = Some s" by linarith+
  then have "map (map_option g) (seats t) ! nat i = Some (g s)" by simp
  with r(1)
  have "(map (map_option g) (seats t))[nat i := Some (g s)] = map (map_option g) (seats t)"
    by (metis list_update_id)
  with Some show ?thesis by (simp add: modSeat_def map_update assms)
qed

lemma proj_forSeats:
  assumes "\<And>s. g (f s) = g s"
  shows "map (map_option g) (seats (forSeats f t)) = map (map_option g) (seats t)"
  by (simp add: forSeats_def option.map_comp comp_def assms)

lemma proj_dealRound:
  assumes "\<And>s h. g (s\<lparr>holeCards := h\<rparr>) = g s"
  shows "map (map_option g) (fst (dealRound ss d)) = map (map_option g) ss"
proof (induction ss arbitrary: d)
  case Nil
  then show ?case by simp
next
  case (Cons so ss)
  show ?case
  proof (cases so)
    case None
    with Cons show ?thesis by (simp add: case_prod_beta)
  next
    case (Some s)
    with Cons show ?thesis by (simp add: case_prod_beta assms)
  qed
qed

lemma proj_dealHole:
  assumes "\<And>s h. g (s\<lparr>holeCards := h\<rparr>) = g s"
  shows "map (map_option g) (seats (dealHole t)) = map (map_option g) (seats t)"
  using proj_dealRound [OF assms, of "seats t" "deck t"]
  by (simp add: dealHole_def case_prod_beta)

lemma proj_commitChips:
  assumes "\<And>s c b k. g (s\<lparr>chips := c, currentBet := b, totalContributed := k\<rparr>) = g s"
  shows "map (map_option g) (seats (commitChips i x t)) = map (map_option g) (seats t)"
  by (simp add: commitChips_def proj_modSeat assms)

lemma proj_markAllIn:
  assumes "\<And>s a. g (s\<lparr>allIn := a\<rparr>) = g s"
  shows "map (map_option g) (seats (markAllIn i t)) = map (map_option g) (seats t)"
  by (simp add: markAllIn_def proj_modSeat assms)

lemma beginHand_pubkeys:
  "map (map_option pubkey) (seats (beginHand cfg d t)) = map (map_option pubkey) (seats t)"
  by (simp add: beginHand_def Let_def proj_dealHole forSeats_def option.map_comp comp_def)

lemma postBlinds_pubkeys:
  "map (map_option pubkey) (seats (postBlinds cfg t)) = map (map_option pubkey) (seats t)"
  by (simp add: postBlinds_def Let_def proj_markAllIn proj_commitChips split: option.splits)

lemma startHandIfReady_pubkeys:
  "map (map_option pubkey) (seats (startHandIfReady cfg d t)) = map (map_option pubkey) (seats t)"
  by (simp add: startHandIfReady_def postBlinds_pubkeys beginHand_pubkeys)

text \<open>
  Claim C6 (one seat per identity), as amended: a \<open>sit\<close> command of an authenticated
  identity for a seat index inside the table is rejected on arrival when that seat is
  occupied at that moment; when the seat is free, the player store is asked. When the
  store answers, the command is rejected without a change of the seats if the lookup
  failed or the identity is banned; otherwise the identity is written to that seat of the
  table as it is by then, the seat not being tested again, and the other seats keep their
  identities. Whether the identity already occupies another seat is looked at in neither
  step.
\<close>

theorem sit_checks_only_the_target_seat:
  assumes "pk \<noteq> []" and "0 \<le> i" and "i < int (length (seats t))"
    and "length (seats u) = length (seats t)"
  shows "(seat_at t i \<noteq> None \<longrightarrow> sitArrive (Some pk) sid i t = Inl SeatTaken)
       \<and> (seat_at t i = None \<longrightarrow> sitArrive (Some pk) sid i t = Inr (pk, sid, i))
       \<and> (row = LookupFailed \<longrightarrow> sitAnswer cfg d row (pk, sid, i) u = Inl ServerError)
       \<and> (row = Row True \<longrightarrow> sitAnswer cfg d row (pk, sid, i) u = Inl Banned)
       \<and> (row = NoRow \<or> row = Row False \<longrightarrow>
            (\<exists>t'. sitAnswer cfg d row (pk, sid, i) u = Inr t'
                \<and> map (map_option pubkey) (seats t')
                    = (map (map_option pubkey) (seats u))[nat i := Some (Some pk)]))"
proof (intro conjI impI)
  assume "seat_at t i \<noteq> None"
  with assms(1-3) show "sitArrive (Some pk) sid i t = Inl SeatTaken"
    by (simp add: sitArrive_def)
next
  assume "seat_at t i = None"
  with assms(1-3) show "sitArrive (Some pk) sid i t = Inr (pk, sid, i)"
    by (simp add: sitArrive_def)
next
  assume "row = LookupFailed"
  then show "sitAnswer cfg d row (pk, sid, i) u = Inl ServerError"
    by (simp add: sitAnswer_def)
next
  assume "row = Row True"
  then show "sitAnswer cfg d row (pk, sid, i) u = Inl Banned"
    by (simp add: sitAnswer_def)
next
  assume "row = NoRow \<or> row = Row False"
  then have "sitAnswer cfg d row (pk, sid, i) u
      = Inr (startHandIfReady cfg d (seatPlayer i pk sid u))"
    by (auto simp: sitAnswer_def)
  moreover have "map (map_option pubkey) (seats (startHandIfReady cfg d (seatPlayer i pk sid u)))
      = (map (map_option pubkey) (seats u))[nat i := Some (Some pk)]"
    by (simp add: startHandIfReady_pubkeys seatPlayer_def map_update)
  ultimately show "\<exists>t'. sitAnswer cfg d row (pk, sid, i) u = Inr t'
      \<and> map (map_option pubkey) (seats t') = (map (map_option pubkey) (seats u))[nat i := Some (Some pk)]"
    by simp
qed

text \<open>
  An instance with two commands for one seat. Identity \<open>A\<close>, on seat 0, asks for seat 1
  while it is free. Before the store answers, identity \<open>B\<close> is seated there and the hand
  starts. The answer for \<open>A\<close> then writes \<open>A\<close> over \<open>B\<close>.
\<close>

theorem sit_checks_only_the_target_seat_witness:
  "map (map_option pubkey) (seats soloTable) = [Some (Some ''A''), None, None, None, None, None]
   \<and> map (map_option pubkey) (seats headsUp)
       = [Some (Some ''A''), Some (Some ''B''), None, None, None, None]
   \<and> sitArrive (Some ''A'') ''s1'' 0 soloTable = Inl SeatTaken
   \<and> sitArrive (Some ''A'') ''s1'' 1 soloTable = Inr (''A'', ''s1'', 1)
   \<and> sitAnswer defaultConfig fullDeck LookupFailed (''A'', ''s1'', 1) headsUp = Inl ServerError
   \<and> sitAnswer defaultConfig fullDeck (Row True) (''A'', ''s1'', 1) headsUp = Inl Banned
   \<and> (\<exists>t'. sitAnswer defaultConfig fullDeck NoRow (''A'', ''s1'', 1) headsUp = Inr t'
         \<and> map (map_option pubkey) (seats t')
             = [Some (Some ''A''), Some (Some ''A''), None, None, None, None])"
proof -
  have a: "''A'' \<noteq> []" by simp
  have l1: "(1::int) < int (length (seats soloTable))"
    and l0: "(0::int) < int (length (seats soloTable))"
    and lu: "length (seats headsUp) = length (seats soloTable)"
    by code_simp+
  have o: "seat_at soloTable 0 \<noteq> None" by code_simp
  have e: "seat_at soloTable 1 = None" by code_simp
  have ps: "map (map_option pubkey) (seats soloTable)
      = [Some (Some ''A''), None, None, None, None, None]" by code_simp
  have ph: "map (map_option pubkey) (seats headsUp)
      = [Some (Some ''A''), Some (Some ''B''), None, None, None, None]" by code_simp
  from sit_checks_only_the_target_seat [OF a _ l0 lu, of "''s1''" NoRow defaultConfig fullDeck] o
  have 1: "sitArrive (Some ''A'') ''s1'' 0 soloTable = Inl SeatTaken" by simp
  from sit_checks_only_the_target_seat [OF a _ l1 lu, of "''s1''" NoRow defaultConfig fullDeck] e
  have 2: "sitArrive (Some ''A'') ''s1'' 1 soloTable = Inr (''A'', ''s1'', 1)" by simp
  from sit_checks_only_the_target_seat [OF a _ l1 lu, of "''s1''" LookupFailed defaultConfig fullDeck]
  have 3: "sitAnswer defaultConfig fullDeck LookupFailed (''A'', ''s1'', 1) headsUp = Inl ServerError"
    by simp
  from sit_checks_only_the_target_seat [OF a _ l1 lu, of "''s1''" "Row True" defaultConfig fullDeck]
  have 4: "sitAnswer defaultConfig fullDeck (Row True) (''A'', ''s1'', 1) headsUp = Inl Banned"
    by simp
  from sit_checks_only_the_target_seat [OF a _ l1 lu, of "''s1''" NoRow defaultConfig fullDeck] ph
  have 5: "\<exists>t'. sitAnswer defaultConfig fullDeck NoRow (''A'', ''s1'', 1) headsUp = Inr t'
         \<and> map (map_option pubkey) (seats t')
             = [Some (Some ''A''), Some (Some ''A''), None, None, None, None]"
    by simp
  from ps ph 1 2 3 4 5 show ?thesis by simp
qed

text \<open>
  Claim C6 as stated fails. Identity \<open>A\<close> sits at seat 0 and then sends \<open>sit\<close> for seat 1:
  the second command is accepted, and two occupied seats have the identity \<open>A\<close>.
\<close>

theorem same_identity_on_two_seats:
  "sit defaultConfig fullDeck (Some ''A'') ''s1'' NoRow 0 (newTable defaultConfig ''table-1'')
     = Inr soloTable
   \<and> sit defaultConfig fullDeck (Some ''A'') ''s1'' NoRow 1 soloTable
     = Inr (startHandIfReady defaultConfig fullDeck (seatPlayer 1 ''A'' ''s1'' soloTable))
   \<and> map (map_option pubkey)
       (seats (startHandIfReady defaultConfig fullDeck (seatPlayer 1 ''A'' ''s1'' soloTable)))
     = [Some (Some ''A''), Some (Some ''A''), None, None, None, None]"
  by code_simp

section \<open>The comparator of hand values\<close>

lemma readAt_simps [simp]:
  "readAt [] i = 0"
  "readAt (x # xs) 0 = x"
  "readAt (x # xs) (Suc i) = readAt xs i"
  by (simp_all add: readAt_def)

lemma readAt_all_Cons:
  "(\<forall>i. readAt (x # xs) i = readAt (y # ys) i) = (x = y \<and> (\<forall>i. readAt xs i = readAt ys i))"
proof
  assume a: "\<forall>i. readAt (x # xs) i = readAt (y # ys) i"
  from a have "readAt (x # xs) 0 = readAt (y # ys) 0" by blast
  moreover have "\<forall>i. readAt xs i = readAt ys i"
  proof
    fix i from a have "readAt (x # xs) (Suc i) = readAt (y # ys) (Suc i)" by blast
    then show "readAt xs i = readAt ys i" by simp
  qed
  ultimately show "x = y \<and> (\<forall>i. readAt xs i = readAt ys i)" by simp
next
  assume a: "x = y \<and> (\<forall>i. readAt xs i = readAt ys i)"
  show "\<forall>i. readAt (x # xs) i = readAt (y # ys) i"
  proof
    fix i show "readAt (x # xs) i = readAt (y # ys) i" using a by (cases i) simp_all
  qed
qed

lemma readAt_all_Nil:
  "(\<forall>i. readAt (x # xs) i = 0) = (x = 0 \<and> (\<forall>i. readAt xs i = 0))"
proof
  assume a: "\<forall>i. readAt (x # xs) i = 0"
  from a have "readAt (x # xs) 0 = 0" by blast
  moreover have "\<forall>i. readAt xs i = 0"
  proof
    fix i from a have "readAt (x # xs) (Suc i) = 0" by blast
    then show "readAt xs i = 0" by simp
  qed
  ultimately show "x = 0 \<and> (\<forall>i. readAt xs i = 0)" by simp
next
  assume a: "x = 0 \<and> (\<forall>i. readAt xs i = 0)"
  show "\<forall>i. readAt (x # xs) i = 0"
  proof
    fix i show "readAt (x # xs) i = 0" using a by (cases i) simp_all
  qed
qed

lemma compareEval_zero_iff: "(compareEval a b = 0) = (\<forall>i. readAt a i = readAt b i)"
proof (induction a b rule: compareEval.induct)
  case 1
  then show ?case by simp
next
  case (2 a as)
  then show ?case by (simp add: readAt_all_Nil)
next
  case (3 b bs)
  have "(\<forall>i. 0 = readAt (b # bs) i) = (\<forall>i. readAt (b # bs) i = 0)" by auto
  with 3 show ?case by (auto simp: readAt_all_Nil)
next
  case (4 a as b bs)
  then show ?case by (simp add: readAt_all_Cons)
qed

lemma compareEval_same: "compareEval a a = 0"
  by (simp add: compareEval_zero_iff)

lemma compareEval_tied:
  assumes "compareEval a c = 0" and "compareEval b c = 0"
  shows "compareEval b a = 0"
  using assms by (simp add: compareEval_zero_iff)

section \<open>Stability of the sort\<close>

lemma filter_insort_cmp:
  assumes "\<And>y. P x \<Longrightarrow> P y \<Longrightarrow> cmp x y \<le> 0"
  shows "filter P (insort_cmp cmp x ys) = filter P (x # ys)"
proof (induction ys)
  case Nil
  then show ?case by simp
next
  case (Cons y ys)
  show ?case
  proof (cases "cmp x y \<le> 0")
    case True
    then show ?thesis by simp
  next
    case False
    with assms have "\<not> (P x \<and> P y)" by blast
    with False Cons show ?thesis by auto
  qed
qed

lemma filter_sort_cmp:
  assumes "\<And>x y. P x \<Longrightarrow> P y \<Longrightarrow> cmp x y \<le> 0"
  shows "filter P (sort_cmp cmp xs) = filter P xs"
proof (induction xs)
  case Nil
  then show ?case by (simp add: sort_cmp_def)
next
  case (Cons x xs)
  have "sort_cmp cmp (x # xs) = insort_cmp cmp x (sort_cmp cmp xs)"
    by (simp add: sort_cmp_def)
  then have "filter P (sort_cmp cmp (x # xs)) = filter P (x # sort_cmp cmp xs)"
    using filter_insort_cmp [of P x cmp "sort_cmp cmp xs"] assms by simp
  with Cons show ?case by simp
qed

section \<open>Winners of a pot\<close>

lemma potWinners_in_seat_order:
  assumes "filter (\<lambda>r. idx r \<in> set (eligibleIndices p)) rs \<noteq> []"
  shows "\<exists>r0::result. potWinners rs p
           = map idx (filter (\<lambda>r. compareEval (bestEval r) (bestEval r0) = 0)
               (filter (\<lambda>r. idx r \<in> set (eligibleIndices p)) rs))
         \<and> potWinners rs p \<noteq> []"
proof -
  define E where "E = filter (\<lambda>r. idx r \<in> set (eligibleIndices p)) rs"
  define S where "S = sort_cmp (\<lambda>a b. compareEval (bestEval b) (bestEval a)) E"
  have "length S = length E" by (simp add: S_def length_sort_cmp)
  with assms obtain r0 rest where S: "S = r0 # rest"
    by (cases S) (auto simp: E_def)
  define P where "P = (\<lambda>r::result. compareEval (bestEval r) (bestEval r0) = 0)"
  have tie: "\<And>x y. P x \<Longrightarrow> P y \<Longrightarrow> compareEval (bestEval y) (bestEval x) \<le> 0"
  proof -
    fix x y assume "P x" and "P y"
    then have "compareEval (bestEval x) (bestEval r0) = 0"
      and "compareEval (bestEval y) (bestEval r0) = 0"
      by (simp_all add: P_def)
    then have "compareEval (bestEval y) (bestEval x) = 0" by (rule compareEval_tied)
    then show "compareEval (bestEval y) (bestEval x) \<le> 0" by simp
  qed
  have w: "potWinners rs p = map idx (filter P S)"
    using S by (simp add: potWinners_def Let_def E_def [symmetric] S_def [symmetric] P_def)
  have "filter P S = filter P E"
    unfolding S_def using tie by (rule filter_sort_cmp)
  with w have 1: "potWinners rs p = map idx (filter P E)" by simp
  have "P r0" by (simp add: P_def compareEval_same)
  with S have "filter P S \<noteq> []" by simp
  with w have 2: "potWinners rs p \<noteq> []" by simp
  from 1 2 show ?thesis unfolding P_def E_def by (intro exI conjI)
qed

lemma showdownResults_idx:
  "showdownResults board ps = Some rs \<Longrightarrow> map idx rs = map fst ps"
proof (induction ps arbitrary: rs)
  case Nil
  then show ?case by simp
next
  case (Cons a ps)
  obtain i s where a: "a = (i, s)" by (cases a)
  from Cons.prems obtain e h rs' where
    "showdownResults board ps = Some rs'"
    "rs = \<lparr>idx = i, bestEval = e, bestHand = h, contrib = totalContributed s\<rparr> # rs'"
    by (auto simp: a split: option.splits)
  with Cons.IH a show ?case by simp
qed

lemma enumerate_players_sorted:
  "sorted_wrt (<) (map fst (concat (map (\<lambda>(i, so). case so of
                               None \<Rightarrow> []
                             | Some s \<Rightarrow> if folded s then [] else [(int i, s)])
                 (enumerate n xs))))
   \<and> (\<forall>x \<in> set (concat (map (\<lambda>(i, so). case so of
                               None \<Rightarrow> []
                             | Some s \<Rightarrow> if folded s then [] else [(int i, s)])
                 (enumerate n xs))). int n \<le> fst x)"
proof (induction xs arbitrary: n)
  case Nil
  then show ?case by simp
next
  case (Cons so xs)
  from Cons [of "Suc n"] show ?case
    by (cases so) (auto simp: sorted_wrt_append)
qed

lemma activePlayers_sorted: "sorted_wrt (<) (map fst (activePlayers t))"
  using enumerate_players_sorted [of 0 "seats t"] by (simp add: activePlayers_def)

lemma potsLoop_levels:
  "p \<in> set (potsLoop rs prev levels) \<Longrightarrow>
     \<exists>level \<in> set levels. eligibleIndices p = map idx (filter (\<lambda>r. contrib r \<ge> level) rs)"
  by (induction levels arbitrary: prev) (auto simp: Let_def)

lemma buildPots_eligible:
  assumes "p \<in> set (buildPots rs)"
  shows "filter (\<lambda>r. idx r \<in> set (eligibleIndices p)) rs \<noteq> []"
proof -
  from assms potsLoop_levels obtain level where
    l: "level \<in> set (contribLevels rs)"
    and e: "eligibleIndices p = map idx (filter (\<lambda>r. contrib r \<ge> level) rs)"
    unfolding buildPots_def by blast
  from l have "level \<in> contrib ` set rs"
    by (simp add: contribLevels_def set_sort_cmp set_unique)
  then obtain r where r: "r \<in> set rs" "contrib r = level" by auto
  then have "idx r \<in> set (eligibleIndices p)" by (auto simp: e)
  with r(1) show ?thesis by (auto simp: filter_empty_conv)
qed

section \<open>Paying a pot\<close>

lemma seat_at_addChips:
  "seat_at (addChips w x t) j
     = (if j = w then map_option (\<lambda>s. s\<lparr>chips := chips s + x\<rparr>) (seat_at t w) else seat_at t j)"
  by (simp add: addChips_def seat_at_modSeat)

lemma chips_after_shares:
  "distinct ws \<Longrightarrow>
   map_option chips (seat_at (fold (\<lambda>w. addChips w x) ws t) j)
     = map_option (\<lambda>s. chips s + (if j \<in> set ws then x else 0)) (seat_at t j)"
proof (induction ws arbitrary: t)
  case Nil
  then show ?case by (simp add: option.map_ident)
next
  case (Cons w ws)
  then have d: "distinct ws" "w \<notin> set ws" by simp_all
  show ?case
    using Cons.IH [OF d(1), of "addChips w x t"] d(2)
    by (auto simp: seat_at_addChips option.map_comp comp_def)
qed

lemma awardPot_chips:
  assumes "distinct ws" and "ws \<noteq> []"
  shows "map_option chips (seat_at (awardPot p ws t) j)
     = map_option (\<lambda>s. chips s + (if j \<in> set ws then amount p div int (length ws) else 0)
                        + (if j = hd ws then amount p mod int (length ws) else 0)) (seat_at t j)"
proof -
  define n where "n = int (length ws)"
  define share where "share = amount p div n"
  define t1 where "t1 = fold (\<lambda>w. addChips w share) ws t"
  have npos: "0 < n" using assms(2) by (simp add: n_def)
  have left: "amount p - share * n = amount p mod n"
    by (simp add: share_def minus_div_mult_eq_mod)
  have m: "0 \<le> amount p mod n" using npos by simp
  have c1: "map_option chips (seat_at t1 j)
      = map_option (\<lambda>s. chips s + (if j \<in> set ws then share else 0)) (seat_at t j)"
    unfolding t1_def by (rule chips_after_shares [OF assms(1)])
  have ap: "awardPot p ws t
      = (if amount p mod n > 0 then addChips (hd ws) (amount p mod n) t1 else t1)"
    by (simp only: awardPot_def Let_def n_def [symmetric] share_def [symmetric]
        t1_def [symmetric] left)
  show ?thesis
  proof (cases "amount p mod n > 0")
    case True
    with ap have "awardPot p ws t = addChips (hd ws) (amount p mod n) t1" by simp
    then show ?thesis
      using c1 by (cases "seat_at t1 (hd ws)"; cases "seat_at t j")
        (auto simp: seat_at_addChips n_def [symmetric] share_def [symmetric])
  next
    case False
    with m have z: "amount p mod n = 0" by simp
    with ap have "awardPot p ws t = t1" by simp
    then show ?thesis
      using c1 z by (simp add: n_def [symmetric] share_def [symmetric])
  qed
qed

text \<open>
  Claim C7 (odd-chip tiebreak), as amended: for every pot of a showdown, each winner
  receives \<open>floor(amount / |winners|)\<close> and the remainder, between 0 and \<open>|winners| - 1\<close>
  chips, is added to the first seat of the winners list. The winners are listed by
  ascending seat index, so that seat is the winner with the lowest seat index, wherever
  the button is.
\<close>

theorem odd_chip_goes_to_lowest_seat:
  assumes "showdownResults (community t) (activePlayers t) = Some rs"
    and "p \<in> set (buildPots rs)"
    and "winners = potWinners rs p"
    and "n = int (length winners)"
  shows "winners \<noteq> [] \<and> sorted_wrt (<) winners
       \<and> (\<forall>j. map_option chips (seat_at (awardPot p winners u) j)
              = map_option (\<lambda>s. chips s + (if j \<in> set winners then amount p div n else 0)
                                  + (if j = hd winners then amount p mod n else 0)) (seat_at u j))
       \<and> 0 \<le> amount p mod n \<and> amount p mod n < n"
proof -
  from potWinners_in_seat_order [OF buildPots_eligible [OF assms(2)]] assms(3)
  obtain r0 :: result where
    w: "winners = map idx (filter (\<lambda>r. compareEval (bestEval r) (bestEval r0) = 0)
               (filter (\<lambda>r. idx r \<in> set (eligibleIndices p)) rs))"
    and ne: "winners \<noteq> []" by auto
  have "sorted_wrt (<) (map idx rs)"
    using showdownResults_idx [OF assms(1)] activePlayers_sorted [of t] by simp
  then have "sorted_wrt (\<lambda>a b. idx a < idx b) rs" by (simp add: sorted_wrt_map)
  then have "sorted_wrt (\<lambda>a b. idx a < idx b)
      (filter (\<lambda>r. compareEval (bestEval r) (bestEval r0) = 0)
               (filter (\<lambda>r. idx r \<in> set (eligibleIndices p)) rs))"
    by (intro sorted_wrt_filter)
  then have so: "sorted_wrt (<) winners" by (simp add: w sorted_wrt_map)
  then have di: "distinct winners" by (simp add: strict_sorted_iff)
  have npos: "0 < n" using ne assms(4) by simp
  from awardPot_chips [OF di ne, of p u] ne so npos show ?thesis
    by (simp add: assms(4))
qed

theorem odd_chip_goes_to_lowest_seat_witness:
  "potWinners oddChipResults oddChipPot = [1, 2]
   \<and> amount oddChipPot = 201
   \<and> map_option chips (seat_at oddChipRiver 1) = Some 933
   \<and> map_option chips (seat_at (awardPot oddChipPot [1, 2] oddChipRiver) 1) = Some 1034
   \<and> map_option chips (seat_at (awardPot oddChipPot [1, 2] oddChipRiver) 2) = Some 1033"
proof -
  have h1: "showdownResults (community oddChipRiver) (activePlayers oddChipRiver) = Some oddChipResults"
    by code_simp
  have h2: "oddChipPot \<in> set (buildPots oddChipResults)" by code_simp
  have h3: "[1, 2] = potWinners oddChipResults oddChipPot" by code_simp
  have h4: "(2::int) = int (length [1::int, 2])" by simp
  have a: "amount oddChipPot = 201" by code_simp
  have c1: "seat_at oddChipRiver 1 = Some (the (seat_at oddChipRiver 1))"
    and c2: "seat_at oddChipRiver 2 = Some (the (seat_at oddChipRiver 2))"
    and k1: "chips (the (seat_at oddChipRiver 1)) = 933"
    and k2: "chips (the (seat_at oddChipRiver 2)) = 933"
    by code_simp+
  from c1 k1 obtain s1 where s1: "seat_at oddChipRiver 1 = Some s1" "chips s1 = 933" by blast
  from c2 k2 obtain s2 where s2: "seat_at oddChipRiver 2 = Some s2" "chips s2 = 933" by blast
  from odd_chip_goes_to_lowest_seat [OF h1 h2 h3 h4, of oddChipRiver]
  have f: "\<And>j. map_option chips (seat_at (awardPot oddChipPot [1, 2] oddChipRiver) j)
      = map_option (\<lambda>s. chips s + (if j \<in> set [1, 2] then amount oddChipPot div 2 else 0)
                        + (if j = hd [1, 2] then amount oddChipPot mod 2 else 0))
          (seat_at oddChipRiver j)" by blast
  from f [of 1] have r1: "map_option chips (seat_at (awardPot oddChipPot [1, 2] oddChipRiver) 1) = Some 1034"
    by (simp add: a s1)
  from f [of 2] have r2: "map_option chips (seat_at (awardPot oddChipPot [1, 2] oddChipRiver) 2) = Some 1033"
    by (simp add: a s2)
  from h3 a s1 r1 r2 show ?thesis by simp
qed

text \<open>
  Claim C7 as stated fails. In the second hand the button is on seat 1 and the pot of 201
  chips is won by seats 1 and 2, who tie. The winner closest clockwise after the button
  is seat 2, but the odd chip goes to seat 1, the first of the winners list: seat 1
  receives 101 chips and seat 2 receives 100.
\<close>

theorem odd_chip_stays_with_button:
  "dealerIndex oddChipRiver = 1 \<and> stage oddChipRiver = River \<and> pot oddChipRiver = 201
   \<and> map (map_option chips) (seats oddChipRiver)
        = [Some 933, Some 933, Some 933, None, None, None]
   \<and> map (\<lambda>p. (amount p, potWinners oddChipResults p)) (buildPots oddChipResults)
        = [(201, [1, 2])]
   \<and> stage (handleAction defaultConfig 2 Check oddChipRiver) = Waiting
   \<and> map (map_option chips) (seats (handleAction defaultConfig 2 Check oddChipRiver))
        = [Some 933, Some 1034, Some 1033, None, None, None]"
  by code_simp

section \<open>Two seats on the ring\<close>

lemma find_only:
  assumes "x \<in> set xs" and "P x" and "\<forall>y \<in> set xs. P y \<longrightarrow> y = x"
  shows "find P xs = Some x"
  using assms
proof (induction xs)
  case Nil
  then show ?case by simp
next
  case (Cons a xs)
  show ?case
  proof (cases "P a")
    case True
    with Cons.prems(3) have "a = x" by simp
    with True show ?thesis by simp
  next
    case False
    with Cons.prems(1,2) have "x \<in> set xs" by auto
    moreover from Cons.prems(3) have "\<forall>y \<in> set xs. P y \<longrightarrow> y = x" by simp
    ultimately have "find P xs = Some x" using Cons.IH Cons.prems(2) by blast
    with False show ?thesis by simp
  qed
qed

lemma find_front:
  assumes "find P xs = Some x"
  shows "find P (xs @ ys) = Some x"
  using assms by (induction xs) (simp_all split: if_splits)

lemma ring_last:
  assumes "0 \<le> d" and "d < int (length (seats t))"
  shows "ring t d
     = map (\<lambda>i. js_rem (d + int i) (int (length (seats t)))) [1..<length (seats t)] @ [d]"
proof -
  define m where "m = length (seats t)"
  have m1: "1 \<le> m" using assms m_def by linarith
  then have u: "[1..<Suc m] = [1..<m] @ [m]" by simp
  have "(d + int m) mod int m = d" using assms m_def by simp
  then have "js_rem (d + int m) (int m) = d" using assms(1) by (simp add: js_rem_def)
  then show ?thesis using m1 by (simp add: ring_def m_def [symmetric])
qed

lemma ring_front_skips_start:
  assumes "0 \<le> d" and "d < int m"
  shows "d \<notin> set (map (\<lambda>i. js_rem (d + int i) (int m)) [1..<m])"
proof
  assume "d \<in> set (map (\<lambda>i. js_rem (d + int i) (int m)) [1..<m])"
  then obtain i where i: "1 \<le> i" "i < m" and e: "js_rem (d + int i) (int m) = d" by auto
  from e assms(1) have md: "(d + int i) mod int m = d" by (simp add: js_rem_def)
  show False
  proof (cases "d + int i < int m")
    case True
    with assms(1) have "(d + int i) mod int m = d + int i" by simp
    with md i show False by simp
  next
    case False
    then have ge: "int m \<le> d + int i" by simp
    have "(d + int i - int m) mod int m = (d + int i) mod int m" by (rule minus_mod_self2)
    moreover have "(d + int i - int m) mod int m = d + int i - int m"
      using ge assms(2) i(2) by (intro mod_pos_pos_trivial) simp_all
    ultimately show False using md i(2) by simp
  qed
qed

lemma scan_two_seats:
  assumes e: "seat_at u e = Some x" and okx: "ok x"
    and d: "0 \<le> d" "d < int (length (seats u))" and ne: "d \<noteq> e"
    and only: "\<forall>j. j \<noteq> d \<and> j \<noteq> e \<longrightarrow> seat_at u j = None"
  shows "firstSeat u d ok = Some e"
proof -
  define P where "P = (\<lambda>cand. case seat_at u cand of None \<Rightarrow> False | Some s \<Rightarrow> ok s)"
  define front where
    "front = map (\<lambda>i. js_rem (d + int i) (int (length (seats u)))) [1..<length (seats u)]"
  have r: "ring u d = front @ [d]" unfolding front_def using d by (rule ring_last)
  from seat_at_Some_range [OF e] have "e \<in> set (ring u d)"
    using ring_covers [OF d(1)] by simp
  with r ne have 1: "e \<in> set front" by simp
  have 2: "P e" using e okx by (simp add: P_def)
  have nd: "d \<notin> set front" unfolding front_def using d by (rule ring_front_skips_start)
  have 3: "\<forall>y \<in> set front. P y \<longrightarrow> y = e"
  proof (intro ballI impI)
    fix y assume y: "y \<in> set front" and py: "P y"
    from py have "seat_at u y \<noteq> None" unfolding P_def by (cases "seat_at u y") simp_all
    then have "\<not> (y \<noteq> d \<and> y \<noteq> e)" using only [rule_format, of y] by (rule contrapos_nn)
    then have "y = d \<or> y = e" by simp
    moreover from y nd have "y \<noteq> d" by (rule_tac notI) simp
    ultimately show "y = e" by simp
  qed
  from find_only [OF 1 2 3] have "find P front = Some e" .
  then have "find P (front @ [d]) = Some e" by (rule find_front)
  then show ?thesis by (simp add: firstSeat_def r P_def)
qed

section \<open>Seats after the deal\<close>

lemma proj_seat_at:
  assumes "map (map_option g) (seats v) = map (map_option g) (seats u)"
  shows "map_option g (seat_at v j) = map_option g (seat_at u j)"
proof -
  from assms have l: "length (seats v) = length (seats u)" by (metis length_map)
  show ?thesis
  proof (cases "0 \<le> j \<and> j < int (length (seats u))")
    case True
    then have k: "nat j < length (seats u)" by linarith
    from assms have "map (map_option g) (seats v) ! nat j = map (map_option g) (seats u) ! nat j"
      by simp
    with k l have "map_option g (seats v ! nat j) = map_option g (seats u ! nat j)" by simp
    with True l show ?thesis by (simp add: seat_at_def)
  next
    case False
    with l show ?thesis by (auto simp: seat_at_def)
  qed
qed

section \<open>The start of a hand\<close>

lemma two_ready:
  assumes "seat_at t d = Some x" and "seat_at t e = Some y" and "d \<noteq> e"
    and "active x" and "active y"
  shows "2 \<le> readyPlayerCount t"
proof -
  define P where "P = (\<lambda>so::seat option. case so of None \<Rightarrow> False | Some s \<Rightarrow> active s)"
  from seat_at_Some_range [OF assms(1)] seat_at_Some_range [OF assms(2)]
  have r: "nat d < length (seats t)" "nat e < length (seats t)"
    "seats t ! nat d = Some x" "seats t ! nat e = Some y" "nat d \<noteq> nat e"
    using assms(3) by auto
  have "{nat d, nat e} \<subseteq> {k. k < length (seats t) \<and> P (seats t ! k)}"
    using r assms(4,5) by (simp add: P_def)
  then have "card {nat d, nat e} \<le> card {k. k < length (seats t) \<and> P (seats t ! k)}"
    by (intro card_mono) simp_all
  moreover have "card {nat d, nat e} = 2" using r(5) by simp
  moreover have "readyPlayerCount t = card {k. k < length (seats t) \<and> P (seats t ! k)}"
    by (simp add: readyPlayerCount_def P_def length_filter_conv_card)
  ultimately show ?thesis by simp
qed

lemma beginHand_frame:
  "stage (beginHand cfg sh t) = Preflop"
  "length (seats (beginHand cfg sh t)) = length (seats t)"
  "dealerIndex (beginHand cfg sh t) = js_rem (dealerIndex t + 1) (int (length (seats t)))"
proof -
  have l: "\<And>u. length (seats (dealHole u)) = length (seats u)"
    using proj_dealHole [of "\<lambda>s. ()"] by (metis length_map)
  have d: "\<And>u. dealerIndex (dealHole u) = dealerIndex u"
    by (simp add: dealHole_def case_prod_beta)
  have s: "\<And>u. stage (dealHole u) = stage u"
    by (simp add: dealHole_def case_prod_beta)
  show "stage (beginHand cfg sh t) = Preflop"
    by (simp add: beginHand_def Let_def s)
  show "length (seats (beginHand cfg sh t)) = length (seats t)"
    by (simp add: beginHand_def Let_def l)
  show "dealerIndex (beginHand cfg sh t) = js_rem (dealerIndex t + 1) (int (length (seats t)))"
    by (simp add: beginHand_def Let_def l d)
qed

lemma beginHand_seat:
  "map_option publicPart (seat_at (beginHand cfg sh t) j)
     = map_option (\<lambda>s. (socketId s, pubkey s, chips s, 0, 0, False, active s, Some False,
                           reconnectTimeout s)) (seat_at t j)"
proof -
  define t2 where "t2 = forSeats (\<lambda>s. s\<lparr>currentBet := 0, folded := False, holeCards := [],
      totalContributed := 0, allIn := Some False\<rparr>)
      (t\<lparr>deck := sh, community := [], pot := 0, currentBetToCall := 0,
          stage := Preflop, lastRaiseAmount := BIG_BLIND cfg\<rparr>)"
  have pp: "\<And>s h. publicPart (s\<lparr>holeCards := h\<rparr>) = publicPart s"
    by (simp add: publicPart_def)
  have "map (map_option publicPart) (seats (beginHand cfg sh t))
      = map (map_option publicPart) (seats (dealHole (dealHole t2)))"
    by (simp add: beginHand_def Let_def t2_def)
  also have "\<dots> = map (map_option publicPart) (seats t2)"
    by (simp add: proj_dealHole [OF pp])
  finally have "map_option publicPart (seat_at (beginHand cfg sh t) j)
      = map_option publicPart (seat_at t2 j)"
    by (rule proj_seat_at)
  also have "seat_at t2 j = map_option (\<lambda>s. s\<lparr>currentBet := 0, folded := False, holeCards := [],
      totalContributed := 0, allIn := Some False\<rparr>) (seat_at t j)"
  proof -
    have "seat_at (t\<lparr>deck := sh, community := [], pot := 0, currentBetToCall := 0,
          stage := Preflop, lastRaiseAmount := BIG_BLIND cfg\<rparr>) j = seat_at t j"
      by (simp add: seat_at_def)
    then show ?thesis by (simp only: t2_def seat_at_forSeats)
  qed
  finally show ?thesis
    by (simp add: option.map_comp comp_def publicPart_def [abs_def])
qed

lemma beginHand_seat_Some:
  assumes "seat_at t j = Some s"
  shows "\<exists>s4. seat_at (beginHand cfg sh t) j = Some s4 \<and> chips s4 = chips s
           \<and> active s4 = active s \<and> currentBet s4 = 0 \<and> totalContributed s4 = 0
           \<and> \<not> folded s4 \<and> allIn s4 = Some False"
  using beginHand_seat [of cfg sh t j] assms
  by (cases "seat_at (beginHand cfg sh t) j") (auto simp: publicPart_def)

lemma beginHand_seat_None:
  assumes "seat_at t j = None"
  shows "seat_at (beginHand cfg sh t) j = None"
  using beginHand_seat [of cfg sh t j] assms by simp

section \<open>Blinds heads-up\<close>

lemma firstSeat_seats:
  "seats w = seats u \<Longrightarrow> firstSeat w s ok = firstSeat u s ok"
  by (simp add: firstSeat_def ring_def seat_at_def)

lemma postBlinds_two:
  assumes se: "seat_at t4 e = Some se" and sd: "seat_at t4 d = Some sd" and ne: "d \<noteq> e"
    and only: "\<forall>j. j \<noteq> d \<and> j \<noteq> e \<longrightarrow> seat_at t4 j = None"
    and act: "active se" "active sd"
    and fresh: "\<not> folded se" "allIn se = Some False" "currentBet se = 0" "currentBet sd = 0"
    and button: "dealerIndex t4 = d"
    and stacks: "SMALL_BLIND cfg < chips se" "BIG_BLIND cfg < chips sd"
  shows "dealerIndex (postBlinds cfg t4) = d
       \<and> map_option currentBet (seat_at (postBlinds cfg t4) e) = Some (SMALL_BLIND cfg)
       \<and> map_option currentBet (seat_at (postBlinds cfg t4) d) = Some (BIG_BLIND cfg)
       \<and> currentTurnIndex (postBlinds cfg t4) = e"
proof -
  from seat_at_Some_range [OF se] seat_at_Some_range [OF sd]
  have rng: "0 \<le> e" "e < int (length (seats t4))" "0 \<le> d" "d < int (length (seats t4))"
    by simp_all
  have only': "\<forall>j. j \<noteq> e \<and> j \<noteq> d \<longrightarrow> seat_at t4 j = None" using only by blast
  have sb: "nextOccupiedForBlinds t4 (dealerIndex t4) = e"
    using scan_two_seats [where ok = active, OF se act(1) rng(3,4) ne only]
    by (simp add: nextOccupiedForBlinds_def button)
  have bb: "nextOccupiedForBlinds t4 e = d"
    using scan_two_seats [where ok = active, OF sd act(2) rng(1,2) ne [symmetric] only']
    by (simp add: nextOccupiedForBlinds_def)
  define t5 where "t5 = markAllIn e (commitChips e (SMALL_BLIND cfg) t4)"
  define t6 where "t6 = markAllIn d (commitChips d (BIG_BLIND cfg) t5)"
  define t7 where "t7 = t6\<lparr>currentBetToCall := BIG_BLIND cfg\<rparr>"
  have small: "min (SMALL_BLIND cfg) (chips se) = SMALL_BLIND cfg" using stacks(1) by simp
  have big: "min (BIG_BLIND cfg) (chips sd) = BIG_BLIND cfg" using stacks(2) by simp
  have s7e: "seat_at t7 e = Some (se\<lparr>chips := chips se - SMALL_BLIND cfg,
      currentBet := SMALL_BLIND cfg, totalContributed := totalContributed se + SMALL_BLIND cfg\<rparr>)"
    using se ne stacks(1) fresh(3)
    by (simp add: t7_def t6_def t5_def seat_at_markAllIn seat_at_commitChips)
  have s7d: "seat_at t7 d \<noteq> None"
    using sd ne by (simp add: t7_def t6_def t5_def seat_at_markAllIn seat_at_commitChips)
  have c7d: "map_option currentBet (seat_at t7 d) = Some (BIG_BLIND cfg)"
    using sd ne fresh(4)
    by (simp add: t7_def t6_def t5_def seat_at_markAllIn seat_at_commitChips option.map_comp comp_def)
  have o7: "\<forall>j. j \<noteq> d \<and> j \<noteq> e \<longrightarrow> seat_at t7 j = None"
    using only by (simp add: t7_def t6_def t5_def seat_at_markAllIn seat_at_commitChips)
  have l7: "length (seats t7) = length (seats t4)"
    by (simp add: t7_def t6_def t5_def)
  have d7: "dealerIndex t7 = d" by (simp add: t7_def t6_def t5_def button)
  have ok7: "(\<lambda>x. active x \<and> \<not> folded x \<and> \<not> truthy (allIn x))
      (se\<lparr>chips := chips se - SMALL_BLIND cfg, currentBet := SMALL_BLIND cfg,
           totalContributed := totalContributed se + SMALL_BLIND cfg\<rparr>)"
    using act(1) fresh(1,2) by (simp add: truthy_def)
  have r7: "d < int (length (seats t7))" using rng(4) l7 by simp
  have first: "nextOccupiedFrom t7 d = e"
    using scan_two_seats [where ok = "\<lambda>x. active x \<and> \<not> folded x \<and> \<not> truthy (allIn x)",
        OF s7e ok7 rng(3) r7 ne o7]
    by (simp add: nextOccupiedFrom_def)
  have "postBlinds cfg t4 = t7\<lparr>currentTurnIndex := e\<rparr>"
    using rng(1) by (simp add: postBlinds_def Let_def sb bb se sd small big
        t5_def [symmetric] t6_def [symmetric] t7_def [symmetric] first)
  with s7e c7d d7 show ?thesis by simp
qed

section \<open>Opening a street heads-up\<close>

lemma openRound_two:
  assumes "seat_at w e = Some x" and "active x" and "\<not> folded x" and "\<not> truthy (allIn x)"
    and "0 \<le> d" and "d < int (length (seats w))" and "d \<noteq> e"
    and "\<forall>j. j \<noteq> d \<and> j \<noteq> e \<longrightarrow> seat_at w j = None"
    and "dealerIndex w = d"
  shows "currentTurnIndex (openRound cfg w) = e"
proof -
  define w1 where "w1 = w\<lparr>currentBetToCall := 0, lastRaiseAmount := BIG_BLIND cfg\<rparr>"
  have ok: "(\<lambda>x. active x \<and> \<not> folded x \<and> \<not> truthy (allIn x)) x" using assms(2-4) by simp
  have "firstSeat w1 d (\<lambda>x. active x \<and> \<not> folded x \<and> \<not> truthy (allIn x))
      = firstSeat w d (\<lambda>x. active x \<and> \<not> folded x \<and> \<not> truthy (allIn x))"
    by (rule firstSeat_seats) (simp add: w1_def)
  also have "\<dots> = Some e"
    by (rule scan_two_seats [where ok = "\<lambda>x. active x \<and> \<not> folded x \<and> \<not> truthy (allIn x)",
          OF assms(1) ok assms(5-8)])
  finally have "nextOccupiedFrom w1 (dealerIndex w1) = e"
    using seat_at_Some_range [OF assms(1)] by (simp add: nextOccupiedFrom_def w1_def assms(9))
  then show ?thesis
    using seat_at_Some_range [OF assms(1)] by (simp add: openRound_def Let_def w1_def [symmetric])
qed

lemma advanceStage_two:
  assumes st: "stage u = Preflop \<or> stage u = Flop \<or> stage u = Turn"
    and x: "seat_at u e = Some x" "active x" "\<not> folded x" "\<not> truthy (allIn x)"
    and d: "0 \<le> d" "d < int (length (seats u))" "d \<noteq> e"
    and only: "\<forall>j. j \<noteq> d \<and> j \<noteq> e \<longrightarrow> seat_at u j = None"
    and button: "dealerIndex u = d"
  shows "currentTurnIndex (advanceStage cfg u) = e"
proof -
  define u1 where "u1 = forSeats (\<lambda>s. s\<lparr>currentBet := 0\<rparr>) u"
  have x1: "seat_at u1 e = Some (x\<lparr>currentBet := 0\<rparr>)"
    using x(1) by (simp add: u1_def seat_at_forSeats)
  have o1: "\<forall>j. j \<noteq> d \<and> j \<noteq> e \<longrightarrow> seat_at u1 j = None"
    using only by (simp add: u1_def seat_at_forSeats)
  have l1: "d < int (length (seats u1))" using d(2) by (simp add: u1_def)
  have b1: "dealerIndex u1 = d" using button by (simp add: u1_def)
  have s1: "stage u1 = stage u" by (simp add: u1_def)
  have gen: "\<And>w::table. seats w = seats u1 \<Longrightarrow> dealerIndex w = d
      \<Longrightarrow> currentTurnIndex (openRound cfg w) = e"
  proof -
    fix w :: table assume sw: "seats w = seats u1" and dw: "dealerIndex w = d"
    have a: "\<And>j. seat_at w j = seat_at u1 j" using sw by (simp add: seat_at_def)
    show "currentTurnIndex (openRound cfg w) = e"
      by (rule openRound_two [where x = "x\<lparr>currentBet := 0\<rparr>" and d = d])
        (use x x1 o1 l1 d dw sw a in simp_all)
  qed
  from st show ?thesis
  proof (elim disjE)
    assume "stage u = Preflop"
    then have "advanceStage cfg u
        = openRound cfg ((dealBoard (dealBoard (dealBoard u1)))\<lparr>stage := Flop\<rparr>)"
      by (simp add: advanceStage_def Let_def u1_def [symmetric] s1)
    then show ?thesis using gen b1 by simp
  next
    assume "stage u = Flop"
    then have "advanceStage cfg u = openRound cfg ((dealBoard u1)\<lparr>stage := Turn\<rparr>)"
      by (simp add: advanceStage_def Let_def u1_def [symmetric] s1)
    then show ?thesis using gen b1 by simp
  next
    assume "stage u = Turn"
    then have "advanceStage cfg u = openRound cfg ((dealBoard u1)\<lparr>stage := River\<rparr>)"
      by (simp add: advanceStage_def Let_def u1_def [symmetric] s1)
    then show ?thesis using gen b1 by simp
  qed
qed

lemma only_two_check:
  assumes "list_all (\<lambda>(k, so). case so of None \<Rightarrow> True | Some s \<Rightarrow> int k = d \<or> int k = e)
             (enumerate 0 (seats t))"
  shows "\<forall>j. j \<noteq> d \<and> j \<noteq> e \<longrightarrow> seat_at t j = None"
proof (intro allI impI)
  fix j assume j: "j \<noteq> d \<and> j \<noteq> e"
  show "seat_at t j = None"
  proof (cases "0 \<le> j \<and> j < int (length (seats t))")
    case False
    then show ?thesis by (auto simp: seat_at_def)
  next
    case True
    then have k: "nat j < length (seats t)" by linarith
    then have "(nat j, seats t ! nat j) \<in> set (enumerate 0 (seats t))"
      by (simp add: in_set_enumerate_eq)
    with assms have "case seats t ! nat j of None \<Rightarrow> True | Some s \<Rightarrow> int (nat j) = d \<or> int (nat j) = e"
      by (auto simp: list_all_iff)
    with True j have "seats t ! nat j = None" by (cases "seats t ! nat j") simp_all
    with True show ?thesis by (simp add: seat_at_def)
  qed
qed

text \<open>
  Claim C5 (heads-up blind assignment), as amended: when exactly two seats are occupied
  at hand start, the button comes to rest on one of them and neither blind puts its seat
  all-in, the seat at \<open>dealerIndex\<close> posts the big blind, and the other seat posts the small
  blind and is first to act preflop. That other seat is also first to act whenever a
  postflop street is opened while it is neither folded nor all-in.
\<close>

theorem heads_up_button_posts_big_blind:
  assumes "stage t = Waiting" and "MIN_PLAYERS_TO_START cfg \<le> 2"
    and "seat_at t d = Some sd" and "seat_at t e = Some se" and "d \<noteq> e"
    and "\<forall>j. j \<noteq> d \<and> j \<noteq> e \<longrightarrow> seat_at t j = None"
    and "active sd" and "active se"
    and "js_rem (dealerIndex t + 1) (int (length (seats t))) = d"
    and "SMALL_BLIND cfg < chips se" and "BIG_BLIND cfg < chips sd"
    and "t' = startHandIfReady cfg shuffled t"
  shows "dealerIndex t' = d
       \<and> map_option currentBet (seat_at t' e) = Some (SMALL_BLIND cfg)
       \<and> map_option currentBet (seat_at t' d) = Some (BIG_BLIND cfg)
       \<and> currentTurnIndex t' = e
       \<and> (\<forall>u x. (stage u = Preflop \<or> stage u = Flop \<or> stage u = Turn)
                \<and> dealerIndex u = d \<and> length (seats u) = length (seats t)
                \<and> (\<forall>j. j \<noteq> d \<and> j \<noteq> e \<longrightarrow> seat_at u j = None)
                \<and> seat_at u e = Some x \<and> active x \<and> \<not> folded x \<and> \<not> truthy (allIn x)
              \<longrightarrow> currentTurnIndex (advanceStage cfg u) = e)"
proof -
  define t4 where "t4 = beginHand cfg shuffled t"
  from two_ready [OF assms(3,4,5,7,8)] assms(2)
  have "\<not> int (readyPlayerCount t) < MIN_PLAYERS_TO_START cfg" by linarith
  with assms(1,12) have t': "t' = postBlinds cfg t4"
    by (simp add: startHandIfReady_def t4_def)
  from beginHand_seat_Some [OF assms(4), of cfg shuffled] obtain se4 where
    se4: "seat_at t4 e = Some se4" "chips se4 = chips se" "active se4 = active se"
      "currentBet se4 = 0" "\<not> folded se4" "allIn se4 = Some False"
    unfolding t4_def by blast
  from beginHand_seat_Some [OF assms(3), of cfg shuffled] obtain sd4 where
    sd4: "seat_at t4 d = Some sd4" "chips sd4 = chips sd" "active sd4 = active sd"
      "currentBet sd4 = 0"
    unfolding t4_def by blast
  have only4: "\<forall>j. j \<noteq> d \<and> j \<noteq> e \<longrightarrow> seat_at t4 j = None"
    using assms(6) beginHand_seat_None [of t _ cfg shuffled] unfolding t4_def by blast
  have b4: "dealerIndex t4 = d"
    using assms(9) by (simp add: t4_def beginHand_frame)
  have first: "dealerIndex t' = d
       \<and> map_option currentBet (seat_at t' e) = Some (SMALL_BLIND cfg)
       \<and> map_option currentBet (seat_at t' d) = Some (BIG_BLIND cfg)
       \<and> currentTurnIndex t' = e"
    unfolding t'
    by (rule postBlinds_two [OF se4(1) sd4(1) assms(5) only4])
       (use se4 sd4 assms(7,8,10,11) b4 in simp_all)
  from seat_at_Some_range [OF assms(3)] have dr: "0 \<le> d" "d < int (length (seats t))"
    by simp_all
  have later: "\<forall>u x. (stage u = Preflop \<or> stage u = Flop \<or> stage u = Turn)
                \<and> dealerIndex u = d \<and> length (seats u) = length (seats t)
                \<and> (\<forall>j. j \<noteq> d \<and> j \<noteq> e \<longrightarrow> seat_at u j = None)
                \<and> seat_at u e = Some x \<and> active x \<and> \<not> folded x \<and> \<not> truthy (allIn x)
              \<longrightarrow> currentTurnIndex (advanceStage cfg u) = e"
  proof (intro allI impI)
    fix u x
    assume h: "(stage u = Preflop \<or> stage u = Flop \<or> stage u = Turn)
                \<and> dealerIndex u = d \<and> length (seats u) = length (seats t)
                \<and> (\<forall>j. j \<noteq> d \<and> j \<noteq> e \<longrightarrow> seat_at u j = None)
                \<and> seat_at u e = Some x \<and> active x \<and> \<not> folded x \<and> \<not> truthy (allIn x)"
    show "currentTurnIndex (advanceStage cfg u) = e"
      by (rule advanceStage_two [where x = x and d = d]) (use h dr assms(5) in simp_all)
  qed
  from first later show ?thesis by (intro conjI) simp_all
qed

theorem heads_up_button_posts_big_blind_witness:
  "headsUp = startHandIfReady defaultConfig fullDeck seatedPair
   \<and> dealerIndex headsUp = 0
   \<and> map_option currentBet (seat_at headsUp 1) = Some 1
   \<and> map_option currentBet (seat_at headsUp 0) = Some 2
   \<and> currentTurnIndex headsUp = 1
   \<and> currentTurnIndex (advanceStage defaultConfig (calledTable\<lparr>currentTurnIndex := 0\<rparr>)) = 1"
proof -
  define u where "u = calledTable\<lparr>currentTurnIndex := 0\<rparr>"
  have w: "stage seatedPair = Waiting" by code_simp
  have m: "MIN_PLAYERS_TO_START defaultConfig \<le> 2" by code_simp
  have s0: "seat_at seatedPair 0 = Some (the (seat_at seatedPair 0))"
    and s1: "seat_at seatedPair 1 = Some (the (seat_at seatedPair 1))"
    and a0: "active (the (seat_at seatedPair 0))" and a1: "active (the (seat_at seatedPair 1))"
    and b: "js_rem (dealerIndex seatedPair + 1) (int (length (seats seatedPair))) = 0"
    and c1: "SMALL_BLIND defaultConfig < chips (the (seat_at seatedPair 1))"
    and c0: "BIG_BLIND defaultConfig < chips (the (seat_at seatedPair 0))"
    by code_simp+
  have ne: "(0::int) \<noteq> 1" by simp
  have "list_all (\<lambda>(k, so). case so of None \<Rightarrow> True | Some s \<Rightarrow> int k = 0 \<or> int k = 1)
      (enumerate 0 (seats seatedPair))" by code_simp
  then have only: "\<forall>j. j \<noteq> 0 \<and> j \<noteq> 1 \<longrightarrow> seat_at seatedPair j = None"
    by (rule only_two_check)
  have h: "headsUp = startHandIfReady defaultConfig fullDeck seatedPair" by code_simp
  note th = heads_up_button_posts_big_blind [OF w m s0 s1 ne only a0 a1 b c1 c0 h]
  have sb: "SMALL_BLIND defaultConfig = 1" and bb: "BIG_BLIND defaultConfig = 2" by code_simp+
  have us: "stage u = Preflop" and ud: "dealerIndex u = 0"
    and ul: "length (seats u) = length (seats seatedPair)"
    and ux: "seat_at u 1 = Some (the (seat_at u 1))"
    and ua: "active (the (seat_at u 1))" and uf: "\<not> folded (the (seat_at u 1))"
    and ui: "\<not> truthy (allIn (the (seat_at u 1)))"
    unfolding u_def by code_simp+
  have "list_all (\<lambda>(k, so). case so of None \<Rightarrow> True | Some s \<Rightarrow> int k = 0 \<or> int k = 1)
      (enumerate 0 (seats u))" unfolding u_def by code_simp
  then have uo: "\<forall>j. j \<noteq> 0 \<and> j \<noteq> 1 \<longrightarrow> seat_at u j = None"
    by (rule only_two_check)
  from th us ud ul uo ux ua uf ui
  have "currentTurnIndex (advanceStage defaultConfig u) = 1" by blast
  with th h sb bb show ?thesis unfolding u_def by simp
qed

text \<open>
  Claim C5 as stated fails. On the heads-up table exactly seats 0 and 1 are occupied and
  the button is on seat 0. The seat at \<open>dealerIndex\<close> has posted the big blind, not the
  small one, and the other seat, the small blind, is first to act preflop.
\<close>

theorem heads_up_dealer_is_big_blind:
  "map (map_option pubkey) (seats headsUp)
     = [Some (Some ''A''), Some (Some ''B''), None, None, None, None]
   \<and> stage headsUp = Preflop
   \<and> dealerIndex headsUp = 0
   \<and> map_option currentBet (seat_at headsUp 0) = Some (BIG_BLIND defaultConfig)
   \<and> map_option currentBet (seat_at headsUp 1) = Some (SMALL_BLIND defaultConfig)
   \<and> currentTurnIndex headsUp = 1"
  by code_simp

end
